theory Spec2Isabelle
  imports Main "HOL-Library.AList"
begin

section \<open>Data model\<close>

text \<open>
  Python exceptions that the code paths below can raise. \<open>KeyError\<close> carries its argument:
  the cache raises \<open>KeyError(key)\<close> with the cache key (\<open>Inl\<close>), the dbm file under the
  shelf raises it with the string key, and \<open>Cache.popitem\<close> with a message (\<open>Inr\<close>).
  \<open>ValueError\<close> is "value too large" of \<open>Cache.__setitem__\<close>; \<open>TypeError\<close> is what item
  access on \<open>None\<close> raises, and what item deletion raises on an object whose class has no
  \<open>__delitem__\<close>.
\<close>

datatype 'k error =
    KeyError "'k + string"
  | ValueError
  | TypeError

text \<open>
  Modelled from the spec: the on-disk key-value store (\<open>shelve\<close> over a dbm file) is an
  external collaborator, "open-by-name, get/set/delete by string key, iterate all entries,
  flush-to-disk, close". A shelf is the list of its entries, string key first, the record
  \<open>(key, value)\<close> second; the list order is the order in which the file yields its keys.
  Writes go straight to the file, so the content of an open shelf is the content of its file.
\<close>

type_synonym ('k, 'v) shelf = "(string \<times> ('k \<times> 'v)) list"

text \<open>
  Modelled from the spec: the wrapped eviction cache is an external collaborator
  (\<open>cachetools.Cache\<close>, "constructible with policy parameters (capacity ...); get, set (may
  internally evict another key, invoking the removal primitive), delete, contains"). The model
  is the base class \<open>Cache\<close> with the default \<open>getsizeof\<close> (every item has size 1, so
  \<open>currsize\<close> is the number of items): \<open>data\<close> is its dictionary in insertion order.
  \<open>hooked\<close> tells the class of the object: \<open>True\<close> for the class built at line 51,
  whose \<open>__delitem__\<close> is \<open>DelMixin.__delitem__\<close>, \<open>False\<close> for the plain
  \<open>wrapped_cache_cls\<close>.
\<close>

record ('k, 'v) cache =
  maxsize :: int
  data :: "('k \<times> 'v) list"
  hooked :: bool

text \<open>
  The state: the fields of a \<open>PersistentCache\<close> object, the files on disk, and a log of
  the calls of \<open>delete_callback\<close> (each with the keys the wrapped cache held when the call
  began). \<open>persistent_dict\<close> is \<open>None\<close> or the open shelf, named by its file.
\<close>

record ('k, 'v) world =
  wrapped :: "('k, 'v) cache"
  filename :: "string option"
  persistent_dict :: "string option"
  files :: "string \<Rightarrow> ('k, 'v) shelf"
  cb_log :: "('k \<times> 'k list) list"

section \<open>Key hashing\<close>

text \<open>Python's \<open>str\<close> of an integer: its decimal digits, with a minus sign when negative.\<close>

fun digits :: "nat \<Rightarrow> string" where
  "digits n =
     (if n < 10 then [''0123456789'' ! n]
      else digits (n div 10) @ [''0123456789'' ! (n mod 10)])"

declare digits.simps [simp del]

definition str_int :: "int \<Rightarrow> string" where
  "str_int i = (if i < 0 then CHR ''-'' # digits (nat (- i)) else digits (nat i))"

text \<open>
  \<open>hash_key\<close> (line 69): \<open>str(hash(key))\<close>. The builtin \<open>hash\<close> of the key type is
  the parameter \<open>hsh\<close>.
\<close>

definition hash_key :: "('k \<Rightarrow> int) \<Rightarrow> 'k \<Rightarrow> string" where
  "hash_key hsh key = str_int (hsh key)"

text \<open>
  The builtin \<open>hash\<close> on Python integers (64-bit CPython): the value modulo \<open>2^61 - 1\<close>
  with the sign kept, and \<open>-1\<close>, which is reserved, replaced by \<open>-2\<close>.
\<close>

definition hash_int :: "int \<Rightarrow> int" where
  "hash_int n =
     (let m = \<bar>n\<bar> mod (2 ^ 61 - 1);
          h = (if n < 0 then - m else m)
      in if h = - 1 then - 2 else h)"

section \<open>The wrapped cache\<close>

text \<open>Python truthiness of \<open>filename\<close> (lines 54 and 93): \<open>None\<close> and the empty string are false.\<close>

definition truthy :: "string option \<Rightarrow> bool" where
  "truthy fn = (case fn of None \<Rightarrow> False | Some name \<Rightarrow> name \<noteq> [])"

text \<open>\<open>Cache.__init__(maxsize)\<close>.\<close>

definition Cache_init :: "int \<Rightarrow> ('k, 'v) cache" where
  "Cache_init m = \<lparr>maxsize = m, data = [], hooked = False\<rparr>"

text \<open>\<open>Cache.__getitem__\<close>: the stored value, or \<open>__missing__\<close>, which raises \<open>KeyError(key)\<close>.\<close>

definition Cache_getitem :: "'k \<Rightarrow> ('k, 'v) cache \<Rightarrow> 'k error + 'v" where
  "Cache_getitem key c =
     (case map_of (data c) key of
        Some v \<Rightarrow> Inr v
      | None \<Rightarrow> Inl (KeyError (Inl key)))"

text \<open>\<open>Cache.__contains__\<close>.\<close>

definition Cache_contains :: "'k \<Rightarrow> ('k, 'v) cache \<Rightarrow> bool" where
  "Cache_contains key c = (key \<in> fst ` set (data c))"

text \<open>
  \<open>Cache.__delitem__\<close>: \<open>size = self.__size.pop(key)\<close> raises \<open>KeyError(key)\<close> for an
  absent key; otherwise the item is removed.
\<close>

definition Cache_delitem :: "'k \<Rightarrow> ('k, 'v) cache \<Rightarrow> 'k error + ('k, 'v) cache" where
  "Cache_delitem key c =
     (if key \<in> fst ` set (data c)
      then Inr (c\<lparr>data := AList.delete key (data c)\<rparr>)
      else Inl (KeyError (Inl key)))"

text \<open>The read-only attributes of the cache that are reached by attribute forwarding.\<close>

datatype attr = Attr_maxsize | Attr_currsize

definition Cache_getattr :: "attr \<Rightarrow> ('k, 'v) cache \<Rightarrow> int" where
  "Cache_getattr a c = (case a of Attr_maxsize \<Rightarrow> maxsize c | Attr_currsize \<Rightarrow> int (length (data c)))"

section \<open>The shelf\<close>

text \<open>
  \<open>self.persistent_dict[hk]\<close>, read: \<open>TypeError\<close> on \<open>None\<close>, \<open>KeyError\<close> for an
  absent key.
\<close>

definition shelf_getitem :: "string \<Rightarrow> ('k, 'v) world \<Rightarrow> 'k error + ('k \<times> 'v)" where
  "shelf_getitem hk s =
     (case persistent_dict s of
        None \<Rightarrow> Inl TypeError
      | Some f \<Rightarrow>
          (case map_of (files s f) hk of
             None \<Rightarrow> Inl (KeyError (Inr hk))
           | Some kv \<Rightarrow> Inr kv))"

text \<open>\<open>del self.persistent_dict[hkey]\<close> (line 66).\<close>

definition shelf_delitem :: "string \<Rightarrow> ('k, 'v) world \<Rightarrow> ('k error + unit) \<times> ('k, 'v) world" where
  "shelf_delitem hk s =
     (case persistent_dict s of
        None \<Rightarrow> (Inl TypeError, s)
      | Some f \<Rightarrow>
          if hk \<in> fst ` set (files s f)
          then (Inr (), s\<lparr>files := (files s)(f := AList.delete hk (files s f))\<rparr>)
          else (Inl (KeyError (Inr hk)), s))"

text \<open>\<open>self.persistent_dict[hkey] = (key, value)\<close> followed by \<open>sync()\<close> (lines 77-78).\<close>

definition shelf_setitem :: "string \<Rightarrow> 'k \<times> 'v \<Rightarrow> string \<Rightarrow> ('k, 'v) world \<Rightarrow> ('k, 'v) world" where
  "shelf_setitem hk kv f s = s\<lparr>files := (files s)(f := AList.update hk kv (files s f))\<rparr>"

section \<open>Methods that call each other\<close>

text \<open>
  \<open>initialize_if_not_initialized\<close> stores into the wrapped cache, a store may evict, an
  eviction deletes through \<open>DelMixin.__delitem__\<close>, which calls \<open>delete_callback\<close>, which
  calls \<open>initialize_if_not_initialized\<close> again. The methods on this cycle are the cases of
  one function; \<open>None\<close> is a call that does not return. An exception leaves the state
  as it is at the \<open>raise\<close>.
\<close>

datatype ('k, 'v) routine =
    Initialize
  | Load "string list"
  | Delete_callback 'k
  | Setitem 'k 'v
  | Evict
  | Popitem
  | Pop 'k
  | Delitem 'k

text \<open>
  \<^item> \<open>Initialize\<close>: \<open>initialize_if_not_initialized\<close> (lines 92-98). The shelf is assigned
    before the loop; the loop runs over the keys the file has at that moment.
  \<^item> \<open>Load hks\<close>: the loop of lines 97-98 with \<open>hks\<close> still to visit. \<open>items()\<close> reads
    the record of each key when it reaches it, then \<open>self.wrapped[k] = v\<close>.
  \<^item> \<open>Delete_callback key\<close>: \<open>delete_callback\<close> (lines 62-66).
  \<^item> \<open>Setitem key val\<close>: \<open>Cache.__setitem__\<close> on \<open>self.wrapped\<close>: "value too large" when
    the size 1 exceeds \<open>maxsize\<close>; room is made only for a new key.
  \<^item> \<open>Evict\<close>: its loop \<open>while self.currsize + size > maxsize: self.popitem()\<close>.
  \<^item> \<open>Popitem\<close>: \<open>Cache.popitem\<close>, the first key of the dictionary; \<open>Pop key\<close>:
    \<open>Cache.pop(key)\<close>, which ends in \<open>del self[key]\<close>.
  \<^item> \<open>Delitem key\<close>: \<open>del self[key]\<close> on the wrapped object: \<open>DelMixin.__delitem__\<close>
    (lines 16-18) when its class is the mixed-in one, else \<open>Cache.__delitem__\<close>.
\<close>

partial_function (option) call ::
  "('k \<Rightarrow> int) \<Rightarrow> ('k, 'v) routine \<Rightarrow> ('k, 'v) world \<Rightarrow> (('k error + unit) \<times> ('k, 'v) world) option"
where
  "call hsh m s =
    (case m of
       Initialize \<Rightarrow>
         (if truthy (filename s) \<and> persistent_dict s = None
          then call hsh (Load (map fst (files s (the (filename s))))) (s\<lparr>persistent_dict := filename s\<rparr>)
          else Some (Inr (), s))
     | Load hks \<Rightarrow>
         (case hks of
            [] \<Rightarrow> Some (Inr (), s)
          | hk # rest \<Rightarrow>
              (case shelf_getitem hk s of
                 Inl e \<Rightarrow> Some (Inl e, s)
               | Inr kv \<Rightarrow>
                   Option.bind (call hsh (Setitem (fst kv) (snd kv)) s)
                     (\<lambda>(r, s'). case r of Inl e \<Rightarrow> Some (Inl e, s') | Inr _ \<Rightarrow> call hsh (Load rest) s')))
     | Delete_callback key \<Rightarrow>
         Option.bind (call hsh Initialize (s\<lparr>cb_log := cb_log s @ [(key, map fst (data (wrapped s)))]\<rparr>))
           (\<lambda>(r, s'). case r of
               Inl e \<Rightarrow> Some (Inl e, s')
             | Inr _ \<Rightarrow> Some (shelf_delitem (hash_key hsh key) s'))
     | Setitem key val \<Rightarrow>
         (if 1 > maxsize (wrapped s) then Some (Inl ValueError, s)
          else Option.bind
                 (if key \<notin> fst ` set (data (wrapped s)) then call hsh Evict s else Some (Inr (), s))
                 (\<lambda>(r, s'). case r of
                     Inl e \<Rightarrow> Some (Inl e, s')
                   | Inr _ \<Rightarrow>
                       Some (Inr (), s'\<lparr>wrapped := (wrapped s')\<lparr>data := AList.update key val (data (wrapped s'))\<rparr>\<rparr>)))
     | Evict \<Rightarrow>
         (if int (length (data (wrapped s))) + 1 > maxsize (wrapped s)
          then Option.bind (call hsh Popitem s)
                 (\<lambda>(r, s'). case r of Inl e \<Rightarrow> Some (Inl e, s') | Inr _ \<Rightarrow> call hsh Evict s')
          else Some (Inr (), s))
     | Popitem \<Rightarrow>
         (case data (wrapped s) of
            [] \<Rightarrow>
              Some (Inl (KeyError (Inr (if hooked (wrapped s) then ''WrappedCache is empty''
                                        else ''Cache is empty''))), s)
          | kv # _ \<Rightarrow> call hsh (Pop (fst kv)) s)
     | Pop key \<Rightarrow>
         (if key \<in> fst ` set (data (wrapped s)) then call hsh (Delitem key) s
          else Some (Inl (KeyError (Inl key)), s))
     | Delitem key \<Rightarrow>
         (if hooked (wrapped s)
          then (case Cache_delitem key (wrapped s) of
                  Inl e \<Rightarrow> Some (Inl e, s)
                | Inr c \<Rightarrow> call hsh (Delete_callback key) (s\<lparr>wrapped := c\<rparr>))
          else (case Cache_delitem key (wrapped s) of
                  Inl e \<Rightarrow> Some (Inl e, s)
                | Inr c \<Rightarrow> Some (Inr (), s\<lparr>wrapped := c\<rparr>))))"

section \<open>PersistentCache\<close>

text \<open>
  \<open>PersistentCache.__init__\<close> (lines 50-60) with \<open>maxsize\<close> as the argument forwarded to
  the cache class, on a disk \<open>disk\<close>: the mixed-in class, with the callback, exactly when
  \<open>filename\<close> is truthy.
\<close>

definition PersistentCache_init ::
  "int \<Rightarrow> string option \<Rightarrow> (string \<Rightarrow> ('k, 'v) shelf) \<Rightarrow> ('k, 'v) world" where
  "PersistentCache_init m fn disk =
     \<lparr>wrapped = (if truthy fn then (Cache_init m)\<lparr>hooked := True\<rparr> else Cache_init m),
      filename = fn,
      persistent_dict = None,
      files = disk,
      cb_log = []\<rparr>"

text \<open>\<open>__setitem__\<close> (lines 72-78).\<close>

definition PersistentCache_setitem ::
  "('k \<Rightarrow> int) \<Rightarrow> 'k \<Rightarrow> 'v \<Rightarrow> ('k, 'v) world \<Rightarrow> (('k error + unit) \<times> ('k, 'v) world) option" where
  "PersistentCache_setitem hsh key val s =
     Option.bind (call hsh Initialize s)
       (\<lambda>(r, s1). case r of
           Inl e \<Rightarrow> Some (Inl e, s1)
         | Inr _ \<Rightarrow>
             Option.bind (call hsh (Setitem key val) s1)
               (\<lambda>(r, s2). case r of
                   Inl e \<Rightarrow> Some (Inl e, s2)
                 | Inr _ \<Rightarrow>
                     Some (Inr (),
                       case persistent_dict s2 of
                         None \<Rightarrow> s2
                       | Some f \<Rightarrow> shelf_setitem (hash_key hsh key) (key, val) f s2)))"

text \<open>\<open>__getitem__\<close> (lines 80-82).\<close>

definition PersistentCache_getitem ::
  "('k \<Rightarrow> int) \<Rightarrow> 'k \<Rightarrow> ('k, 'v) world \<Rightarrow> (('k error + 'v) \<times> ('k, 'v) world) option" where
  "PersistentCache_getitem hsh item s =
     Option.bind (call hsh Initialize s)
       (\<lambda>(r, s1). case r of
           Inl e \<Rightarrow> Some (Inl e, s1)
         | Inr _ \<Rightarrow> Some (Cache_getitem item (wrapped s1), s1))"

text \<open>\<open>__contains__\<close> (lines 88-90).\<close>

definition PersistentCache_contains ::
  "('k \<Rightarrow> int) \<Rightarrow> 'k \<Rightarrow> ('k, 'v) world \<Rightarrow> (('k error + bool) \<times> ('k, 'v) world) option" where
  "PersistentCache_contains hsh item s =
     Option.bind (call hsh Initialize s)
       (\<lambda>(r, s1). case r of
           Inl e \<Rightarrow> Some (Inl e, s1)
         | Inr _ \<Rightarrow> Some (Inr (Cache_contains item (wrapped s1)), s1))"

text \<open>\<open>__getattr__\<close> (lines 84-86) for a read-only attribute of the cache.\<close>

definition PersistentCache_getattr ::
  "('k \<Rightarrow> int) \<Rightarrow> attr \<Rightarrow> ('k, 'v) world \<Rightarrow> (('k error + int) \<times> ('k, 'v) world) option" where
  "PersistentCache_getattr hsh item s =
     Option.bind (call hsh Initialize s)
       (\<lambda>(r, s1). case r of
           Inl e \<Rightarrow> Some (Inl e, s1)
         | Inr _ \<Rightarrow> Some (Inr (Cache_getattr item (wrapped s1)), s1))"

text \<open>
  The call \<open>pc.__delitem__(key)\<close>: \<open>PersistentCache\<close> has no \<open>__delitem__\<close> of its own,
  so the attribute is found by \<open>__getattr__('__delitem__')\<close> (lines 84-86), which initializes
  and hands out the bound method of the wrapped object, called with the key.
\<close>

definition PersistentCache_delitem ::
  "('k \<Rightarrow> int) \<Rightarrow> 'k \<Rightarrow> ('k, 'v) world \<Rightarrow> (('k error + unit) \<times> ('k, 'v) world) option" where
  "PersistentCache_delitem hsh key s =
     Option.bind (call hsh Initialize s)
       (\<lambda>(r, s1). case r of
           Inl e \<Rightarrow> Some (Inl e, s1)
         | Inr _ \<Rightarrow> call hsh (Delitem key) s1)"


text \<open>\<open>close\<close> (lines 100-103).\<close>

definition PersistentCache_close :: "('k, 'v) world \<Rightarrow> ('k error + unit) \<times> ('k, 'v) world" where
  "PersistentCache_close s =
     (case persistent_dict s of
        None \<Rightarrow> (Inr (), s)
      | Some f \<Rightarrow> (Inr (), s\<lparr>persistent_dict := None\<rparr>))"

section \<open>Sequences of operations\<close>

text \<open>
  The operations a caller performs, and what each gives back: the returned object or the
  exception. A caller that catches the exception goes on with the next operation.
\<close>

datatype ('k, 'v) operation =
    Set 'k 'v
  | Get 'k
  | Delete 'k
  | Contains 'k
  | Getattr attr

datatype 'v pyobj = PyNone | PyVal 'v | PyBool bool | PyInt int

definition returning :: "('a \<Rightarrow> 'v pyobj) \<Rightarrow> (('k error + 'a) \<times> 's) option \<Rightarrow> (('k error + 'v pyobj) \<times> 's) option" where
  "returning f r = map_option (\<lambda>(x, s). (map_sum id f x, s)) r"

definition apply_operation ::
  "('k \<Rightarrow> int) \<Rightarrow> ('k, 'v) operation \<Rightarrow> ('k, 'v) world \<Rightarrow> (('k error + 'v pyobj) \<times> ('k, 'v) world) option" where
  "apply_operation hsh p s =
     (case p of
        Set k v \<Rightarrow> returning (\<lambda>_. PyNone) (PersistentCache_setitem hsh k v s)
      | Get k \<Rightarrow> returning PyVal (PersistentCache_getitem hsh k s)
      | Delete k \<Rightarrow> returning (\<lambda>_. PyNone) (PersistentCache_delitem hsh k s)
      | Contains k \<Rightarrow> returning PyBool (PersistentCache_contains hsh k s)
      | Getattr a \<Rightarrow> returning PyInt (PersistentCache_getattr hsh a s))"

fun run_operations ::
  "('k \<Rightarrow> int) \<Rightarrow> ('k, 'v) operation list \<Rightarrow> ('k, 'v) world
     \<Rightarrow> (('k error + 'v pyobj) list \<times> ('k, 'v) world) option" where
  "run_operations hsh [] s = Some ([], s)"
| "run_operations hsh (p # ps) s =
     Option.bind (apply_operation hsh p s)
       (\<lambda>(r, s'). map_option (\<lambda>(rs, s''). (r # rs, s'')) (run_operations hsh ps s'))"

section \<open>The bare cache\<close>

text \<open>
  The same operations on a cache object that nothing wraps: the class is the plain cache
  class, \<open>del self[key]\<close> is \<open>Cache.__delitem__\<close>, and there is no other state.
\<close>

definition bare_pop :: "'k \<Rightarrow> ('k, 'v) cache \<Rightarrow> ('k error + unit) \<times> ('k, 'v) cache" where
  "bare_pop key c =
     (if key \<in> fst ` set (data c)
      then (case Cache_delitem key c of
              Inl e \<Rightarrow> (Inl e, c)
            | Inr c' \<Rightarrow> (Inr (), c'))
      else (Inl (KeyError (Inl key)), c))"

definition bare_popitem :: "('k, 'v) cache \<Rightarrow> ('k error + unit) \<times> ('k, 'v) cache" where
  "bare_popitem c =
     (case data c of
        [] \<Rightarrow> (Inl (KeyError (Inr ''Cache is empty'')), c)
      | kv # _ \<Rightarrow> bare_pop (fst kv) c)"

function bare_evict :: "('k, 'v) cache \<Rightarrow> ('k error + unit) \<times> ('k, 'v) cache" where
  "bare_evict c =
     (if int (length (data c)) + 1 > maxsize c
      then (case bare_popitem c of
              (Inl e, c') \<Rightarrow> (Inl e, c')
            | (Inr _, c') \<Rightarrow> bare_evict c')
      else (Inr (), c))"
  by pat_completeness auto
termination
  apply (relation "measure (\<lambda>c. length (data c))")
   apply simp
  apply (auto simp: bare_popitem_def bare_pop_def Cache_delitem_def AList.delete_eq less_Suc_eq_le
      split: list.splits if_splits)
  done

definition bare_setitem :: "'k \<Rightarrow> 'v \<Rightarrow> ('k, 'v) cache \<Rightarrow> ('k error + unit) \<times> ('k, 'v) cache" where
  "bare_setitem key val c =
     (if 1 > maxsize c then (Inl ValueError, c)
      else (case (if key \<notin> fst ` set (data c) then bare_evict c else (Inr (), c)) of
              (Inl e, c') \<Rightarrow> (Inl e, c')
            | (Inr _, c') \<Rightarrow> (Inr (), c'\<lparr>data := AList.update key val (data c')\<rparr>)))"

text \<open>\<open>del c[key]\<close>, or the call \<open>c.__delitem__(key)\<close>, on the bare cache: \<open>Cache.__delitem__\<close>.\<close>

definition bare_delitem :: "'k \<Rightarrow> ('k, 'v) cache \<Rightarrow> ('k error + unit) \<times> ('k, 'v) cache" where
  "bare_delitem key c =
     (case Cache_delitem key c of
        Inl e \<Rightarrow> (Inl e, c)
      | Inr c' \<Rightarrow> (Inr (), c'))"

definition bare_apply ::
  "('k, 'v) operation \<Rightarrow> ('k, 'v) cache \<Rightarrow> ('k error + 'v pyobj) \<times> ('k, 'v) cache" where
  "bare_apply p c =
     (case p of
        Set k v \<Rightarrow> (map_sum id (\<lambda>_. PyNone) (fst (bare_setitem k v c)), snd (bare_setitem k v c))
      | Get k \<Rightarrow> (map_sum id PyVal (Cache_getitem k c), c)
      | Delete k \<Rightarrow> (map_sum id (\<lambda>_. PyNone) (fst (bare_delitem k c)), snd (bare_delitem k c))
      | Contains k \<Rightarrow> (Inr (PyBool (Cache_contains k c)), c)
      | Getattr a \<Rightarrow> (Inr (PyInt (Cache_getattr a c)), c))"

fun bare_run ::
  "('k, 'v) operation list \<Rightarrow> ('k, 'v) cache \<Rightarrow> ('k error + 'v pyobj) list \<times> ('k, 'v) cache" where
  "bare_run [] c = ([], c)"
| "bare_run (p # ps) c =
     (case bare_apply p c of
        (r, c') \<Rightarrow> (case bare_run ps c' of (rs, c'') \<Rightarrow> (r # rs, c'')))"

section \<open>Predicates on states\<close>

text \<open>
  A state in which \<open>initialize_if_not_initialized\<close> has nothing to do: the shelf is open,
  or the filename is falsy.
\<close>

definition settled :: "('k, 'v) world \<Rightarrow> bool" where
  "settled s = (persistent_dict s \<noteq> None \<or> \<not> truthy (filename s))"

text \<open>
  The invariant of the data model: the shelf is open and the string keys in it are exactly
  the hashed keys of the in-memory cache.
\<close>

definition store_mirrors_cache :: "('k \<Rightarrow> int) \<Rightarrow> ('k, 'v) world \<Rightarrow> bool" where
  "store_mirrors_cache hsh s =
     (case persistent_dict s of
        None \<Rightarrow> False
      | Some f \<Rightarrow> set (map fst (files s f)) = set (map (\<lambda>kv. hash_key hsh (fst kv)) (data (wrapped s))))"

text \<open>
  A shelf as \<open>__setitem__\<close> writes it: one record per string key, each under the hashed
  key of the key it holds.
\<close>

definition wf_shelf :: "('k \<Rightarrow> int) \<Rightarrow> ('k, 'v) shelf \<Rightarrow> bool" where
  "wf_shelf hsh st =
     (distinct (map fst st) \<and> list_all (\<lambda>e. fst e = hash_key hsh (fst (snd e))) st)"

text \<open>The keys an operation names.\<close>

definition operation_key :: "('k, 'v) operation \<Rightarrow> 'k set" where
  "operation_key p =
     (case p of Set k v \<Rightarrow> {k} | Get k \<Rightarrow> {k} | Delete k \<Rightarrow> {k} | Contains k \<Rightarrow> {k} | Getattr a \<Rightarrow> {})"

text \<open>
  The state of a persistent cache between two operations, once the shelf is open on \<open>f\<close>,
  with all keys drawn from \<open>K\<close>.
\<close>

definition in_step :: "('k \<Rightarrow> int) \<Rightarrow> 'k set \<Rightarrow> string \<Rightarrow> ('k, 'v) world \<Rightarrow> bool" where
  "in_step hsh K f s =
     (filename s = Some f \<and> f \<noteq> [] \<and> persistent_dict s = Some f \<and> hooked (wrapped s) \<and>
      1 \<le> maxsize (wrapped s) \<and> int (length (data (wrapped s))) \<le> maxsize (wrapped s) \<and>
      distinct (map fst (data (wrapped s))) \<and> fst ` set (data (wrapped s)) \<subseteq> K \<and>
      fst ` set (files s f) = hash_key hsh ` fst ` set (data (wrapped s)))"

text \<open>What is seen of an outcome: the result, the items of the cache, the shelf file \<open>f\<close>.\<close>

definition observe ::
  "string \<Rightarrow> ('a \<times> ('k, 'v) world) option \<Rightarrow> ('a \<times> ('k \<times> 'v) list \<times> ('k, 'v) shelf) option" where
  "observe f r = map_option (\<lambda>(x, s). (x, data (wrapped s), files s f)) r"

text \<open>The same with the keys the callback was called for, in order, in place of the items.\<close>

definition observe_log ::
  "string \<Rightarrow> ('a \<times> ('k, 'v) world) option \<Rightarrow> ('a \<times> ('k, 'v) shelf \<times> 'k list) option" where
  "observe_log f r = map_option (\<lambda>(x, s). (x, files s f, map fst (cb_log s))) r"

text \<open>Whether a property holds, or fails, in the state an outcome leaves.\<close>

definition holds_after :: "(('k, 'v) world \<Rightarrow> bool) \<Rightarrow> ('a \<times> ('k, 'v) world) option \<Rightarrow> bool" where
  "holds_after P r = (case r of None \<Rightarrow> False | Some (x, s) \<Rightarrow> P s)"

definition fails_after :: "(('k, 'v) world \<Rightarrow> bool) \<Rightarrow> ('a \<times> ('k, 'v) world) option \<Rightarrow> bool" where
  "fails_after P r = (case r of None \<Rightarrow> False | Some (x, s) \<Rightarrow> \<not> P s)"

text \<open>Disks for the examples: no file has a record; \<open>disk_of f st\<close> has the shelf \<open>st\<close> in file \<open>f\<close>.\<close>

definition empty_disk :: "string \<Rightarrow> ('k, 'v) shelf" where
  "empty_disk = (\<lambda>_. [])"

definition disk_of :: "string \<Rightarrow> ('k, 'v) shelf \<Rightarrow> string \<Rightarrow> ('k, 'v) shelf" where
  "disk_of f st = (\<lambda>g. if g = f then st else [])"

text \<open>
  A persistent cache as \<open>__init__\<close> builds it for a falsy filename: plain cache class, no
  callback, no shelf.
\<close>

definition disabled :: "('k, 'v) world \<Rightarrow> bool" where
  "disabled s = (\<not> truthy (filename s) \<and> persistent_dict s = None \<and> \<not> hooked (wrapped s))"

text \<open>The state of the example in which two keys share a hash: see the hash of \<open>-1\<close>.\<close>

definition collided :: "(int, int) world" where
  "collided =
     \<lparr>wrapped = \<lparr>maxsize = 2, data = [(- 2, 2)], hooked = True\<rparr>,
      filename = Some ''f'', persistent_dict = Some ''f'', files = empty_disk, cb_log = [(- 1, [- 2])]\<rparr>"

text \<open>
  Two states of the examples: after \<open>set(1, 10)\<close> on a new cache of capacity 1, without
  persistence and with the file \<open>f\<close>.
\<close>

definition plain_one :: "(int, int) world" where
  "plain_one =
     \<lparr>wrapped = \<lparr>maxsize = 1, data = [(1, 10)], hooked = False\<rparr>,
      filename = None, persistent_dict = None, files = empty_disk, cb_log = []\<rparr>"

definition opened_one :: "(int, int) world" where
  "opened_one =
     \<lparr>wrapped = \<lparr>maxsize = 1, data = [(1, 10)], hooked = True\<rparr>,
      filename = Some ''f'', persistent_dict = Some ''f'',
      files = disk_of ''f'' [(''1'', (1, 10))], cb_log = []\<rparr>"

declare call.simps [code]

section \<open>The methods one by one\<close>

lemma call_Initialize:
  "call hsh Initialize s =
     (if truthy (filename s) \<and> persistent_dict s = None
      then call hsh (Load (map fst (files s (the (filename s))))) (s\<lparr>persistent_dict := filename s\<rparr>)
      else Some (Inr (), s))"
  by (subst call.simps) simp

lemma call_Load_Nil: "call hsh (Load []) s = Some (Inr (), s)"
  by (subst call.simps) simp

lemma call_Load_Cons:
  "call hsh (Load (hk # rest)) s =
     (case shelf_getitem hk s of
        Inl e \<Rightarrow> Some (Inl e, s)
      | Inr kv \<Rightarrow>
          Option.bind (call hsh (Setitem (fst kv) (snd kv)) s)
            (\<lambda>(r, s'). case r of Inl e \<Rightarrow> Some (Inl e, s') | Inr _ \<Rightarrow> call hsh (Load rest) s'))"
  by (subst call.simps) simp

lemma call_Delete_callback:
  "call hsh (Delete_callback key) s =
     Option.bind (call hsh Initialize (s\<lparr>cb_log := cb_log s @ [(key, map fst (data (wrapped s)))]\<rparr>))
       (\<lambda>(r, s'). case r of
           Inl e \<Rightarrow> Some (Inl e, s')
         | Inr _ \<Rightarrow> Some (shelf_delitem (hash_key hsh key) s'))"
  by (subst call.simps) simp

lemma call_Setitem:
  "call hsh (Setitem key val) s =
     (if 1 > maxsize (wrapped s) then Some (Inl ValueError, s)
      else Option.bind
             (if key \<notin> fst ` set (data (wrapped s)) then call hsh Evict s else Some (Inr (), s))
             (\<lambda>(r, s'). case r of
                 Inl e \<Rightarrow> Some (Inl e, s')
               | Inr _ \<Rightarrow>
                   Some (Inr (), s'\<lparr>wrapped := (wrapped s')\<lparr>data := AList.update key val (data (wrapped s'))\<rparr>\<rparr>)))"
  by (subst call.simps) simp

lemma call_Evict:
  "call hsh Evict s =
     (if int (length (data (wrapped s))) + 1 > maxsize (wrapped s)
      then Option.bind (call hsh Popitem s)
             (\<lambda>(r, s'). case r of Inl e \<Rightarrow> Some (Inl e, s') | Inr _ \<Rightarrow> call hsh Evict s')
      else Some (Inr (), s))"
  by (subst call.simps) simp

lemma call_Popitem:
  "call hsh Popitem s =
     (case data (wrapped s) of
        [] \<Rightarrow>
          Some (Inl (KeyError (Inr (if hooked (wrapped s) then ''WrappedCache is empty''
                                    else ''Cache is empty''))), s)
      | kv # _ \<Rightarrow> call hsh (Pop (fst kv)) s)"
  by (subst call.simps) simp

lemma call_Pop:
  "call hsh (Pop key) s =
     (if key \<in> fst ` set (data (wrapped s)) then call hsh (Delitem key) s
      else Some (Inl (KeyError (Inl key)), s))"
  by (subst call.simps) simp

lemma call_Delitem:
  "call hsh (Delitem key) s =
     (if hooked (wrapped s)
      then (case Cache_delitem key (wrapped s) of
              Inl e \<Rightarrow> Some (Inl e, s)
            | Inr c \<Rightarrow> call hsh (Delete_callback key) (s\<lparr>wrapped := c\<rparr>))
      else (case Cache_delitem key (wrapped s) of
              Inl e \<Rightarrow> Some (Inl e, s)
            | Inr c \<Rightarrow> Some (Inr (), s\<lparr>wrapped := c\<rparr>)))"
  by (subst call.simps) simp

lemmas call_eqs = call_Initialize call_Load_Nil call_Load_Cons call_Delete_callback
  call_Setitem call_Evict call_Popitem call_Pop call_Delitem


section \<open>What every call preserves\<close>

text \<open>
  Whatever a method does when it returns or raises: the filename stays, an open shelf stays
  open, \<open>initialize_if_not_initialized\<close> leaves a settled state, and a store that returns
  has put the value under the key.
\<close>

lemma call_frame_aux:
  assumes "call hsh m s = Some y"
  shows "filename (snd y) = filename s \<and>
     (persistent_dict s \<noteq> None \<longrightarrow> persistent_dict (snd y) = persistent_dict s) \<and>
     (m = Initialize \<longrightarrow> settled (snd y)) \<and>
     (\<forall>k v. m = Setitem k v \<and> fst y = Inr () \<longrightarrow> map_of (data (wrapped (snd y))) k = Some v)"
proof (rule call.raw_induct [where P = "\<lambda>hsh m s y. filename (snd y) = filename s \<and>
     (persistent_dict s \<noteq> None \<longrightarrow> persistent_dict (snd y) = persistent_dict s) \<and>
     (m = Initialize \<longrightarrow> settled (snd y)) \<and>
     (\<forall>k v. m = Setitem k v \<and> fst y = Inr () \<longrightarrow> map_of (data (wrapped (snd y))) k = Some v)", OF _ assms])
  fix call :: "('a \<Rightarrow> int) \<Rightarrow> ('a, 'b) routine \<Rightarrow> ('a, 'b) world \<Rightarrow> (('a error + unit) \<times> ('a, 'b) world) option"
  fix hsh m s y
  assume IH: "\<And>hsh m s y. call hsh m s = Some y \<Longrightarrow> filename (snd y) = filename s \<and>
     (persistent_dict s \<noteq> None \<longrightarrow> persistent_dict (snd y) = persistent_dict s) \<and>
     (m = Initialize \<longrightarrow> settled (snd y)) \<and>
     (\<forall>k v. m = Setitem k v \<and> fst y = Inr () \<longrightarrow> map_of (data (wrapped (snd y))) k = Some v)"
  assume body: "(case m of
       Initialize \<Rightarrow>
         (if truthy (filename s) \<and> persistent_dict s = None
          then call hsh (Load (map fst (files s (the (filename s))))) (s\<lparr>persistent_dict := filename s\<rparr>)
          else Some (Inr (), s))
     | Load hks \<Rightarrow>
         (case hks of
            [] \<Rightarrow> Some (Inr (), s)
          | hk # rest \<Rightarrow>
              (case shelf_getitem hk s of
                 Inl e \<Rightarrow> Some (Inl e, s)
               | Inr kv \<Rightarrow>
                   Option.bind (call hsh (Setitem (fst kv) (snd kv)) s)
                     (\<lambda>(r, s'). case r of Inl e \<Rightarrow> Some (Inl e, s') | Inr _ \<Rightarrow> call hsh (Load rest) s')))
     | Delete_callback key \<Rightarrow>
         Option.bind (call hsh Initialize (s\<lparr>cb_log := cb_log s @ [(key, map fst (data (wrapped s)))]\<rparr>))
           (\<lambda>(r, s'). case r of
               Inl e \<Rightarrow> Some (Inl e, s')
             | Inr _ \<Rightarrow> Some (shelf_delitem (hash_key hsh key) s'))
     | Setitem key val \<Rightarrow>
         (if 1 > maxsize (wrapped s) then Some (Inl ValueError, s)
          else Option.bind
                 (if key \<notin> fst ` set (data (wrapped s)) then call hsh Evict s else Some (Inr (), s))
                 (\<lambda>(r, s'). case r of
                     Inl e \<Rightarrow> Some (Inl e, s')
                   | Inr _ \<Rightarrow>
                       Some (Inr (), s'\<lparr>wrapped := (wrapped s')\<lparr>data := AList.update key val (data (wrapped s'))\<rparr>\<rparr>)))
     | Evict \<Rightarrow>
         (if int (length (data (wrapped s))) + 1 > maxsize (wrapped s)
          then Option.bind (call hsh Popitem s)
                 (\<lambda>(r, s'). case r of Inl e \<Rightarrow> Some (Inl e, s') | Inr _ \<Rightarrow> call hsh Evict s')
          else Some (Inr (), s))
     | Popitem \<Rightarrow>
         (case data (wrapped s) of
            [] \<Rightarrow>
              Some (Inl (KeyError (Inr (if hooked (wrapped s) then ''WrappedCache is empty''
                                        else ''Cache is empty''))), s)
          | kv # _ \<Rightarrow> call hsh (Pop (fst kv)) s)
     | Pop key \<Rightarrow>
         (if key \<in> fst ` set (data (wrapped s)) then call hsh (Delitem key) s
          else Some (Inl (KeyError (Inl key)), s))
     | Delitem key \<Rightarrow>
         (if hooked (wrapped s)
          then (case Cache_delitem key (wrapped s) of
                  Inl e \<Rightarrow> Some (Inl e, s)
                | Inr c \<Rightarrow> call hsh (Delete_callback key) (s\<lparr>wrapped := c\<rparr>))
          else (case Cache_delitem key (wrapped s) of
                  Inl e \<Rightarrow> Some (Inl e, s)
                | Inr c \<Rightarrow> Some (Inr (), s\<lparr>wrapped := c\<rparr>)))) = Some y"
  show "filename (snd y) = filename s \<and>
     (persistent_dict s \<noteq> None \<longrightarrow> persistent_dict (snd y) = persistent_dict s) \<and>
     (m = Initialize \<longrightarrow> settled (snd y)) \<and>
     (\<forall>k v. m = Setitem k v \<and> fst y = Inr () \<longrightarrow> map_of (data (wrapped (snd y))) k = Some v)"
  proof (cases m)
    case Initialize
    with body show ?thesis
      by (auto simp: settled_def truthy_def split: if_splits option.splits dest!: IH)
  next
    case (Load hks)
    with body show ?thesis
      by (auto split: list.splits sum.splits prod.splits Option.bind_splits dest!: IH)
  next
    case (Delete_callback k)
    with body show ?thesis
      by (auto simp: shelf_delitem_def split: sum.splits prod.splits Option.bind_splits option.splits if_splits dest!: IH)
  next
    case (Setitem k v)
    with body show ?thesis
      by (auto simp: update_conv' split: sum.splits prod.splits Option.bind_splits if_splits dest!: IH)
  next
    case Evict
    with body show ?thesis
      by (auto split: sum.splits prod.splits Option.bind_splits if_splits dest!: IH)
  next
    case Popitem
    with body show ?thesis
      by (auto split: list.splits dest!: IH)
  next
    case (Pop k)
    with body show ?thesis
      by (auto split: if_splits dest!: IH)
  next
    case (Delitem k)
    with body show ?thesis
      by (auto simp: Cache_delitem_def split: if_splits sum.splits dest!: IH)
  qed
qed

section \<open>Settled states\<close>

lemma call_Initialize_settled: "settled s \<Longrightarrow> call hsh Initialize s = Some (Inr (), s)"
  by (auto simp: call_Initialize settled_def)

lemma call_Delete_callback_settled:
  "settled s \<Longrightarrow>
   call hsh (Delete_callback key) s =
     Some (shelf_delitem (hash_key hsh key) (s\<lparr>cb_log := cb_log s @ [(key, map fst (data (wrapped s)))]\<rparr>))"
  by (simp add: call_Delete_callback call_Initialize_settled settled_def)

lemma settled_wrapped_update [simp]: "settled (s\<lparr>wrapped := c\<rparr>) = settled s"
  by (simp add: settled_def)

lemma call_Delitem_settled:
  "settled s \<Longrightarrow>
   call hsh (Delitem key) s =
     (case Cache_delitem key (wrapped s) of
        Inl e \<Rightarrow> Some (Inl e, s)
      | Inr c \<Rightarrow>
          if hooked (wrapped s)
          then Some (shelf_delitem (hash_key hsh key)
                       (s\<lparr>wrapped := c, cb_log := cb_log s @ [(key, map fst (data c))]\<rparr>))
          else Some (Inr (), s\<lparr>wrapped := c\<rparr>))"
  by (simp add: call_Delitem call_Delete_callback_settled split: sum.splits)

lemma not_in_delete: "key \<notin> fst ` set (AList.delete key xs)"
  by (auto simp: AList.delete_eq)

lemma PersistentCache_delitem_settled:
  "settled s \<Longrightarrow> PersistentCache_delitem hsh key s = call hsh (Delitem key) s"
  by (simp add: PersistentCache_delitem_def call_Initialize_settled)

lemma setitem_then_getitem_aux:
  assumes "PersistentCache_setitem hsh key val s = Some (Inr (), s')"
  shows "PersistentCache_getitem hsh key s' = Some (Inr val, s')"
proof -
  from assms obtain s1 s2 where
    i: "call hsh Initialize s = Some (Inr (), s1)" and
    w: "call hsh (Setitem key val) s1 = Some (Inr (), s2)" and
    s': "s' = (case persistent_dict s2 of None \<Rightarrow> s2
               | Some f \<Rightarrow> shelf_setitem (hash_key hsh key) (key, val) f s2)"
    by (auto simp: PersistentCache_setitem_def split: Option.bind_splits sum.splits)
  from call_frame_aux [OF i] have st1: "settled s1" by simp
  from call_frame_aux [OF w] have
    fn: "filename s2 = filename s1" and
    pd: "persistent_dict s1 \<noteq> None \<longrightarrow> persistent_dict s2 = persistent_dict s1" and
    v: "map_of (data (wrapped s2)) key = Some val"
    by simp_all
  from st1 fn pd have "settled s2" by (auto simp: settled_def)
  with s' have "settled s'" and "wrapped s' = wrapped s2"
    by (auto simp: settled_def shelf_setitem_def split: option.splits)
  with v show ?thesis
    by (simp add: PersistentCache_getitem_def call_Initialize_settled Cache_getitem_def)
qed

section \<open>The cache without the callback\<close>

lemma hooked_bare_popitem: "hooked (snd (bare_popitem c)) = hooked c"
  by (auto simp: bare_popitem_def bare_pop_def Cache_delitem_def split: list.splits)

lemma hooked_bare_evict: "hooked (snd (bare_evict c)) = hooked c"
proof (induction c rule: bare_evict.induct)
  case (1 c)
  show ?case
  proof (cases "int (length (data c)) + 1 > maxsize c")
    case False
    then show ?thesis by simp
  next
    case True
    obtain r c' where p: "bare_popitem c = (r, c')" by (cases "bare_popitem c")
    with hooked_bare_popitem [of c] have h: "hooked c' = hooked c" by simp
    show ?thesis
    proof (cases r)
      case (Inl e)
      with True p h show ?thesis by simp
    next
      case (Inr u)
      with True p h 1 [OF True p [symmetric]] show ?thesis by simp
    qed
  qed
qed

lemma call_Popitem_bare:
  "\<not> hooked (wrapped s) \<Longrightarrow>
   call hsh Popitem s = Some (fst (bare_popitem (wrapped s)), s\<lparr>wrapped := snd (bare_popitem (wrapped s))\<rparr>)"
  by (auto simp: call_Popitem call_Pop call_Delitem bare_popitem_def bare_pop_def Cache_delitem_def
      split: list.splits)

lemma call_Evict_bare:
  "wrapped s = c \<Longrightarrow> \<not> hooked c \<Longrightarrow>
   call hsh Evict s = Some (fst (bare_evict c), s\<lparr>wrapped := snd (bare_evict c)\<rparr>)"
proof (induction c arbitrary: s rule: bare_evict.induct)
  case (1 c)
  show ?case
  proof (cases "int (length (data c)) + 1 > maxsize c")
    case False
    with 1(2) show ?thesis by (simp add: call_Evict)
  next
    case True
    obtain r c' where p: "bare_popitem c = (r, c')" by (cases "bare_popitem c")
    with hooked_bare_popitem [of c] 1(3) have h: "\<not> hooked c'" by simp
    from 1(2,3) p have pop: "call hsh Popitem s = Some (r, s\<lparr>wrapped := c'\<rparr>)"
      by (simp add: call_Popitem_bare)
    show ?thesis
    proof (cases r)
      case (Inl e)
      with True p pop 1(2) show ?thesis by (simp add: call_Evict)
    next
      case (Inr u)
      have "call hsh Evict (s\<lparr>wrapped := c'\<rparr>) =
              Some (fst (bare_evict c'), s\<lparr>wrapped := c'\<rparr>\<lparr>wrapped := snd (bare_evict c')\<rparr>)"
        using True p Inr h by (intro 1(1)) simp_all
      with True p pop 1(2) Inr show ?thesis by (simp add: call_Evict)
    qed
  qed
qed

lemma call_Evict_unhooked:
  "\<not> hooked (wrapped s) \<Longrightarrow>
   call hsh Evict s = Some (fst (bare_evict (wrapped s)), s\<lparr>wrapped := snd (bare_evict (wrapped s))\<rparr>)"
  by (rule call_Evict_bare) simp_all

lemma call_Setitem_bare:
  assumes "\<not> hooked (wrapped s)"
  shows "call hsh (Setitem key val) s =
     Some (fst (bare_setitem key val (wrapped s)), s\<lparr>wrapped := snd (bare_setitem key val (wrapped s))\<rparr>)"
proof -
  obtain r c' where e: "bare_evict (wrapped s) = (r, c')" by (cases "bare_evict (wrapped s)")
  show ?thesis
  proof (cases r)
    case (Inl x)
    with e assms show ?thesis
      by (simp add: call_Setitem bare_setitem_def call_Evict_unhooked)
  next
    case (Inr u)
    with e assms show ?thesis
      by (simp add: call_Setitem bare_setitem_def call_Evict_unhooked)
  qed
qed

lemma disabled_settled: "disabled s \<Longrightarrow> settled s"
  by (simp add: disabled_def settled_def)

lemma hooked_bare_setitem: "hooked (snd (bare_setitem k v c)) = hooked c"
proof -
  obtain r c' where e: "bare_evict c = (r, c')" by (cases "bare_evict c")
  with hooked_bare_evict [of c] have "hooked c' = hooked c" by simp
  with e show ?thesis
    by (cases r) (simp_all add: bare_setitem_def)
qed

lemma hooked_bare_delitem: "hooked (snd (bare_delitem k c)) = hooked c"
  by (simp add: bare_delitem_def Cache_delitem_def)

lemma hooked_bare_apply: "hooked (snd (bare_apply p c)) = hooked c"
  by (cases p) (simp_all add: bare_apply_def hooked_bare_setitem hooked_bare_delitem)

lemma apply_operation_disabled:
  assumes "disabled s"
  shows "apply_operation hsh p s =
           Some (fst (bare_apply p (wrapped s)), s\<lparr>wrapped := snd (bare_apply p (wrapped s))\<rparr>)"
proof -
  from assms have st: "settled s" by (rule disabled_settled)
  from assms have h: "\<not> hooked (wrapped s)" and pd: "persistent_dict s = None"
    by (simp_all add: disabled_def)
  show ?thesis
  proof (cases p)
    case (Set k v)
    then show ?thesis
      using h pd
      by (auto simp: apply_operation_def bare_apply_def returning_def PersistentCache_setitem_def
          call_Initialize_settled [OF st] call_Setitem_bare split: sum.splits)
  next
    case (Get k)
    then show ?thesis
      by (simp add: apply_operation_def bare_apply_def returning_def PersistentCache_getitem_def
          call_Initialize_settled [OF st])
  next
    case (Delete k)
    then show ?thesis
      using h
      by (auto simp: apply_operation_def bare_apply_def returning_def
          PersistentCache_delitem_settled [OF st] call_Delitem bare_delitem_def split: sum.splits)
  next
    case (Contains k)
    then show ?thesis
      by (simp add: apply_operation_def bare_apply_def returning_def PersistentCache_contains_def
          call_Initialize_settled [OF st])
  next
    case (Getattr a)
    then show ?thesis
      by (simp add: apply_operation_def bare_apply_def returning_def PersistentCache_getattr_def
          call_Initialize_settled [OF st])
  qed
qed

lemma run_operations_disabled:
  "disabled s \<Longrightarrow>
   run_operations hsh ps s =
     Some (fst (bare_run ps (wrapped s)), s\<lparr>wrapped := snd (bare_run ps (wrapped s))\<rparr>)"
proof (induction ps arbitrary: s)
  case Nil
  then show ?case by simp
next
  case (Cons p ps)
  let ?s' = "s\<lparr>wrapped := snd (bare_apply p (wrapped s))\<rparr>"
  from Cons.prems have "disabled ?s'"
    by (simp add: disabled_def hooked_bare_apply)
  from Cons.IH [OF this] Cons.prems show ?case
    by (simp add: apply_operation_disabled split: prod.splits)
qed

lemma hooked_bare_run: "hooked (snd (bare_run ps c)) = hooked c"
proof (induction ps arbitrary: c)
  case Nil
  then show ?case by simp
next
  case (Cons p ps)
  obtain r c' where a: "bare_apply p c = (r, c')" by (cases "bare_apply p c")
  obtain rs c'' where b: "bare_run ps c' = (rs, c'')" by (cases "bare_run ps c'")
  from a hooked_bare_apply [of p c] have "hooked c' = hooked c" by simp
  moreover from b Cons.IH [of c'] have "hooked c'' = hooked c'" by simp
  ultimately show ?case using a b by simp
qed

section \<open>Stores into the wrapped cache\<close>

lemma update_absent: "k \<notin> fst ` set xs \<Longrightarrow> AList.update k v xs = xs @ [(k, v)]"
  by (induction xs) auto

lemma dom_delete: "fst ` set (AList.delete k xs) = fst ` set xs - {k}"
  by (auto simp: AList.delete_eq)

lemma call_Setitem_no_evict:
  assumes "1 \<le> maxsize (wrapped s)"
    and "key \<in> fst ` set (data (wrapped s)) \<or> int (length (data (wrapped s))) + 1 \<le> maxsize (wrapped s)"
  shows "call hsh (Setitem key val) s =
           Some (Inr (), s\<lparr>wrapped := (wrapped s)\<lparr>data := AList.update key val (data (wrapped s))\<rparr>\<rparr>)"
  using assms by (auto simp: call_Setitem call_Evict)

lemma call_Setitem_evict:
  assumes h: "hooked (wrapped s)" and pd: "persistent_dict s = Some f"
    and new: "key \<notin> fst ` set (data (wrapped s))"
    and d: "data (wrapped s) = (k0, v0) # rest"
    and k0: "k0 \<notin> fst ` set rest"
    and full: "int (length rest) + 1 = maxsize (wrapped s)"
    and st: "hash_key hsh k0 \<in> fst ` set (files s f)"
  shows "call hsh (Setitem key val) s =
           Some (Inr (), s\<lparr>wrapped := (wrapped s)\<lparr>data := AList.update key val rest\<rparr>,
                           files := (files s)(f := AList.delete (hash_key hsh k0) (files s f)),
                           cb_log := cb_log s @ [(k0, map fst rest)]\<rparr>)"
proof -
  let ?s1 = "s\<lparr>wrapped := (wrapped s)\<lparr>data := rest\<rparr>,
               cb_log := cb_log s @ [(k0, map fst rest)],
               files := (files s)(f := AList.delete (hash_key hsh k0) (files s f))\<rparr>"
  from pd have settled: "settled s" by (simp add: settled_def)
  have del: "call hsh (Delitem k0) s = Some (Inr (), ?s1)"
    using h pd d k0 st
    by (simp add: call_Delitem_settled [OF settled] Cache_delitem_def shelf_delitem_def)
  have pop: "call hsh Popitem s = Some (Inr (), ?s1)"
    using d del by (simp add: call_Popitem call_Pop)
  have stop: "call hsh Evict ?s1 = Some (Inr (), ?s1)"
    using full by (simp add: call_Evict)
  have ev: "call hsh Evict s = Some (Inr (), ?s1)"
    using d full pop stop by (subst call_Evict) simp
  from full have "1 \<le> maxsize (wrapped s)" by simp
  with new ev show ?thesis
    by (simp add: call_Setitem)
qed


section \<open>The load pass\<close>

lemma wf_shelf_append: "wf_shelf hsh (a @ b) \<Longrightarrow> wf_shelf hsh a \<and> wf_shelf hsh b"
  by (simp add: wf_shelf_def)

lemma wf_shelf_entry: "wf_shelf hsh st \<Longrightarrow> e \<in> set st \<Longrightarrow> fst e = hash_key hsh (fst (snd e))"
  by (simp add: wf_shelf_def list_all_iff)

lemma wf_shelf_distinct: "wf_shelf hsh st \<Longrightarrow> distinct (map fst st)"
  by (simp add: wf_shelf_def)

lemma wf_shelf_keys_distinct:
  assumes "wf_shelf hsh st"
  shows "distinct (map (\<lambda>e. fst (snd e)) st)"
proof -
  from assms have "map fst st = map (hash_key hsh) (map (\<lambda>e. fst (snd e)) st)"
    by (simp add: wf_shelf_def list_all_iff)
  with wf_shelf_distinct [OF assms]
  have "distinct (map (hash_key hsh) (map (\<lambda>e. fst (snd e)) st))" by metis
  then show ?thesis by (rule distinct_map [THEN iffD1, THEN conjunct1])
qed

lemma map_of_middle: "k \<notin> fst ` set a \<Longrightarrow> map_of (a @ (k, v) # b) k = Some v"
  by (induction a) auto

lemma load_loop:
  assumes "wf_shelf hsh (q @ r)" and "persistent_dict s = Some f" and "hooked (wrapped s)"
    and "1 \<le> maxsize (wrapped s)" and "files s f = q @ r" and "data (wrapped s) = map snd q"
    and "int (length q) \<le> maxsize (wrapped s)"
  shows "\<exists>s' E. call hsh (Load (map fst r)) s = Some (Inr (), s') \<and>
           q @ r = E @ files s' f \<and>
           data (wrapped s') = map snd (files s' f) \<and>
           length (files s' f) = min (length (q @ r)) (nat (maxsize (wrapped s))) \<and>
           map fst (cb_log s') = map fst (cb_log s) @ map (\<lambda>e. fst (snd e)) E \<and>
           maxsize (wrapped s') = maxsize (wrapped s) \<and> hooked (wrapped s') \<and>
           persistent_dict s' = Some f \<and> filename s' = filename s \<and>
           (\<forall>g. g \<noteq> f \<longrightarrow> files s' g = files s g)"
  using assms
proof (induction r arbitrary: q s)
  case Nil
  then have "call hsh (Load (map fst [])) s = Some (Inr (), s) \<and>
           q @ [] = [] @ files s f \<and>
           data (wrapped s) = map snd (files s f) \<and>
           length (files s f) = min (length (q @ [])) (nat (maxsize (wrapped s))) \<and>
           map fst (cb_log s) = map fst (cb_log s) @ map (\<lambda>e. fst (snd e)) []"
    by (auto simp: call_Load_Nil)
  with Nil show ?case by blast
next
  case (Cons x r)
  obtain hk k v where x: "x = (hk, (k, v))" by (cases x) auto
  from wf_shelf_distinct [OF Cons.prems(1)]
  have dst: "distinct (map fst (q @ x # r))" .
  from wf_shelf_keys_distinct [OF Cons.prems(1)]
  have dk: "distinct (map (\<lambda>e. fst (snd e)) (q @ x # r))" .
  from dst x have "hk \<notin> fst ` set q" by auto
  then have "map_of (q @ (hk, (k, v)) # r) hk = Some (k, v)" by (rule map_of_middle)
  with Cons.prems(2,5) x have get: "shelf_getitem hk s = Inr (k, v)"
    by (simp add: shelf_getitem_def del: map_of_append)
  from dk x have knew: "k \<notin> fst ` set (map snd q)"
    by (auto simp: image_iff)
  show ?case
  proof (cases "int (length q) < maxsize (wrapped s)")
    case True
    let ?s1 = "s\<lparr>wrapped := (wrapped s)\<lparr>data := map snd (q @ [x])\<rparr>\<rparr>"
    from True Cons.prems(4,6) knew x
    have set1: "call hsh (Setitem k v) s = Some (Inr (), ?s1)"
      by (simp add: call_Setitem_no_evict update_absent)
    have "\<exists>s' E. call hsh (Load (map fst r)) ?s1 = Some (Inr (), s') \<and>
           (q @ [x]) @ r = E @ files s' f \<and>
           data (wrapped s') = map snd (files s' f) \<and>
           length (files s' f) = min (length ((q @ [x]) @ r)) (nat (maxsize (wrapped ?s1))) \<and>
           map fst (cb_log s') = map fst (cb_log ?s1) @ map (\<lambda>e. fst (snd e)) E \<and>
           maxsize (wrapped s') = maxsize (wrapped ?s1) \<and> hooked (wrapped s') \<and>
           persistent_dict s' = Some f \<and> filename s' = filename ?s1 \<and>
           (\<forall>g. g \<noteq> f \<longrightarrow> files s' g = files ?s1 g)"
    proof (rule Cons.IH)
      show "wf_shelf hsh ((q @ [x]) @ r)" using Cons.prems(1) by simp
    qed (use Cons.prems True in simp_all)
    then obtain s' E where
      l: "call hsh (Load (map fst r)) ?s1 = Some (Inr (), s')" and
      r: "(q @ [x]) @ r = E @ files s' f"
         "data (wrapped s') = map snd (files s' f)"
         "length (files s' f) = min (length ((q @ [x]) @ r)) (nat (maxsize (wrapped ?s1)))"
         "map fst (cb_log s') = map fst (cb_log ?s1) @ map (\<lambda>e. fst (snd e)) E"
         "maxsize (wrapped s') = maxsize (wrapped ?s1)" "hooked (wrapped s')"
         "persistent_dict s' = Some f" "filename s' = filename ?s1"
         "\<forall>g. g \<noteq> f \<longrightarrow> files s' g = files ?s1 g"
      by blast
    from get set1 l x have "call hsh (Load (map fst (x # r))) s = Some (Inr (), s')"
      by (simp add: call_Load_Cons)
    with r show ?thesis
      by (intro exI [of _ s'] exI [of _ E]) simp
  next
    case False
    with Cons.prems(7) have full: "int (length q) = maxsize (wrapped s)" by simp
    with Cons.prems(4) obtain x0 q' where q: "q = x0 # q'" by (cases q) auto
    obtain hk0 k0 v0 where x0: "x0 = (hk0, (k0, v0))" by (cases x0) auto
    from wf_shelf_entry [OF Cons.prems(1), of x0] q x0 have hk0: "hk0 = hash_key hsh k0"
      by simp
    from dk q x0 have k0: "k0 \<notin> fst ` set (map snd q')" by (auto simp: image_iff)
    from dst q x0 have hk0_out: "hk0 \<notin> fst ` set (q' @ x # r)" by auto
    let ?s1 = "s\<lparr>wrapped := (wrapped s)\<lparr>data := map snd (q' @ [x])\<rparr>,
                 files := (files s)(f := (q' @ [x]) @ r),
                 cb_log := cb_log s @ [(k0, map fst (map snd q'))]\<rparr>"
    have "call hsh (Setitem k v) s =
           Some (Inr (), s\<lparr>wrapped := (wrapped s)\<lparr>data := AList.update k v (map snd q')\<rparr>,
                           files := (files s)(f := AList.delete (hash_key hsh k0) (files s f)),
                           cb_log := cb_log s @ [(k0, map fst (map snd q'))]\<rparr>)"
    proof (rule call_Setitem_evict [where ?v0.0 = v0])
      show "hooked (wrapped s)" by (rule Cons.prems(3))
      show "persistent_dict s = Some f" by (rule Cons.prems(2))
      show "k \<notin> fst ` set (data (wrapped s))" using knew Cons.prems(6) by simp
      show "data (wrapped s) = (k0, v0) # map snd q'" using Cons.prems(6) q x0 by simp
      show "k0 \<notin> fst ` set (map snd q')" by (rule k0)
      show "int (length (map snd q')) + 1 = maxsize (wrapped s)" using full q by simp
      show "hash_key hsh k0 \<in> fst ` set (files s f)" using Cons.prems(5) q x0 hk0 by simp
    qed
    moreover from knew q have "AList.update k v (map snd q') = map snd (q' @ [x])"
      using x by (simp add: update_absent)
    moreover from hk0_out have "AList.delete (hash_key hsh k0) (files s f) = (q' @ [x]) @ r"
      using Cons.prems(5) q x0 hk0 by simp
    ultimately have set1: "call hsh (Setitem k v) s = Some (Inr (), ?s1)" by simp
    from Cons.prems(1) q have "wf_shelf hsh ([x0] @ ((q' @ [x]) @ r))" by simp
    then have wf1: "wf_shelf hsh ((q' @ [x]) @ r)" by (rule wf_shelf_append [THEN conjunct2])
    have "\<exists>s' E. call hsh (Load (map fst r)) ?s1 = Some (Inr (), s') \<and>
           (q' @ [x]) @ r = E @ files s' f \<and>
           data (wrapped s') = map snd (files s' f) \<and>
           length (files s' f) = min (length ((q' @ [x]) @ r)) (nat (maxsize (wrapped ?s1))) \<and>
           map fst (cb_log s') = map fst (cb_log ?s1) @ map (\<lambda>e. fst (snd e)) E \<and>
           maxsize (wrapped s') = maxsize (wrapped ?s1) \<and> hooked (wrapped s') \<and>
           persistent_dict s' = Some f \<and> filename s' = filename ?s1 \<and>
           (\<forall>g. g \<noteq> f \<longrightarrow> files s' g = files ?s1 g)"
    proof (rule Cons.IH)
      show "wf_shelf hsh ((q' @ [x]) @ r)" by (rule wf1)
    qed (use Cons.prems(2,3,4) full q in simp_all)
    then obtain s' E where
      l: "call hsh (Load (map fst r)) ?s1 = Some (Inr (), s')" and
      r: "(q' @ [x]) @ r = E @ files s' f"
         "data (wrapped s') = map snd (files s' f)"
         "length (files s' f) = min (length ((q' @ [x]) @ r)) (nat (maxsize (wrapped ?s1)))"
         "map fst (cb_log s') = map fst (cb_log ?s1) @ map (\<lambda>e. fst (snd e)) E"
         "maxsize (wrapped s') = maxsize (wrapped ?s1)" "hooked (wrapped s')"
         "persistent_dict s' = Some f" "filename s' = filename ?s1"
         "\<forall>g. g \<noteq> f \<longrightarrow> files s' g = files ?s1 g"
      by blast
    from get set1 l x have "call hsh (Load (map fst (x # r))) s = Some (Inr (), s')"
      by (simp add: call_Load_Cons)
    moreover from r(1) q have "q @ x # r = (x0 # E) @ files s' f" by simp
    moreover from r(3) full q have
      "length (files s' f) = min (length (q @ x # r)) (nat (maxsize (wrapped s)))" by simp
    moreover from r(4) x0 have
      "map fst (cb_log s') = map fst (cb_log s) @ map (\<lambda>e. fst (snd e)) (x0 # E)" by simp
    ultimately show ?thesis
      using r(2,5,6,7,8,9) by (intro exI [of _ s'] exI [of _ "x0 # E"]) simp
  qed
qed

lemma initialize_fresh:
  assumes f: "f \<noteq> []" and m: "1 \<le> m" and wf: "wf_shelf hsh (disk f)"
  shows "\<exists>s' E. call hsh Initialize (PersistentCache_init m (Some f) disk) = Some (Inr (), s') \<and>
           disk f = E @ files s' f \<and>
           data (wrapped s') = map snd (files s' f) \<and>
           length (files s' f) = min (length (disk f)) (nat m) \<and>
           map fst (cb_log s') = map (\<lambda>e. fst (snd e)) E \<and>
           maxsize (wrapped s') = m \<and> hooked (wrapped s') \<and>
           persistent_dict s' = Some f \<and> filename s' = Some f \<and>
           (\<forall>g. g \<noteq> f \<longrightarrow> files s' g = disk g)"
proof -
  let ?s0 = "PersistentCache_init m (Some f) disk :: ('a, 'b) world"
  let ?s1 = "?s0\<lparr>persistent_dict := Some f\<rparr>"
  from f have init: "call hsh Initialize ?s0 = call hsh (Load (map fst (disk f))) ?s1"
    by (simp add: call_Initialize PersistentCache_init_def truthy_def)
  have "\<exists>s' E. call hsh (Load (map fst (disk f))) ?s1 = Some (Inr (), s') \<and>
           [] @ disk f = E @ files s' f \<and>
           data (wrapped s') = map snd (files s' f) \<and>
           length (files s' f) = min (length ([] @ disk f)) (nat (maxsize (wrapped ?s1))) \<and>
           map fst (cb_log s') = map fst (cb_log ?s1) @ map (\<lambda>e. fst (snd e)) E \<and>
           maxsize (wrapped s') = maxsize (wrapped ?s1) \<and> hooked (wrapped s') \<and>
           persistent_dict s' = Some f \<and> filename s' = filename ?s1 \<and>
           (\<forall>g. g \<noteq> f \<longrightarrow> files s' g = files ?s1 g)"
  proof (rule load_loop)
    show "wf_shelf hsh ([] @ disk f)" using wf by simp
  qed (use f m in \<open>simp_all add: PersistentCache_init_def truthy_def Cache_init_def\<close>)
  then show ?thesis
    unfolding init using f by (simp add: PersistentCache_init_def truthy_def Cache_init_def)
qed

section \<open>Between two operations\<close>

lemma in_step_settled: "in_step hsh K f s \<Longrightarrow> settled s"
  by (simp add: in_step_def settled_def)

lemma in_step_after_initialize:
  assumes f: "f \<noteq> []" and m: "1 \<le> m" and wf: "wf_shelf hsh (disk f)"
    and K: "(\<lambda>e. fst (snd e)) ` set (disk f) \<subseteq> K"
  shows "\<exists>s'. call hsh Initialize (PersistentCache_init m (Some f) disk) = Some (Inr (), s') \<and>
              in_step hsh K f s'"
proof -
  from initialize_fresh [where disk = disk, OF f m wf] obtain s' E where
    i: "call hsh Initialize (PersistentCache_init m (Some f) disk) = Some (Inr (), s')" and
    d: "disk f = E @ files s' f" and
    r: "data (wrapped s') = map snd (files s' f)"
       "length (files s' f) = min (length (disk f)) (nat m)"
       "maxsize (wrapped s') = m" "hooked (wrapped s')"
       "persistent_dict s' = Some f" "filename s' = Some f"
    by blast
  from wf d have wf': "wf_shelf hsh (files s' f)"
    using wf_shelf_append [of hsh E "files s' f"] by simp
  have "distinct (map fst (data (wrapped s')))"
    using wf_shelf_keys_distinct [OF wf'] r(1) by (simp add: comp_def)
  moreover have "fst ` set (data (wrapped s')) \<subseteq> K"
    using K d r(1) by (auto simp: image_iff)
  moreover have "fst ` set (files s' f) = hash_key hsh ` fst ` set (data (wrapped s'))"
    using wf_shelf_entry [OF wf'] r(1) by (force simp: image_iff)
  moreover have "int (length (data (wrapped s'))) \<le> maxsize (wrapped s')"
    using r(1,2,3) m by simp
  ultimately have "in_step hsh K f s'"
    using r f m by (simp add: in_step_def)
  with i show ?thesis by blast
qed

lemma length_update_present: "k \<in> fst ` set xs \<Longrightarrow> length (AList.update k v xs) = length xs"
  by (induction xs) auto

lemma setitem_in_step:
  assumes inv: "in_step hsh K f s" and inj: "inj_on (hash_key hsh) K" and k: "key \<in> K"
  shows "\<exists>s'. PersistentCache_setitem hsh key val s = Some (Inr (), s') \<and> in_step hsh K f s'"
proof -
  from inv have st: "settled s" by (rule in_step_settled)
  from inv have
    fn: "filename s = Some f" "f \<noteq> []" and pd: "persistent_dict s = Some f" and
    h: "hooked (wrapped s)" and m: "1 \<le> maxsize (wrapped s)" and
    len: "int (length (data (wrapped s))) \<le> maxsize (wrapped s)" and
    dist: "distinct (map fst (data (wrapped s)))" and
    sub: "fst ` set (data (wrapped s)) \<subseteq> K" and
    mir: "fst ` set (files s f) = hash_key hsh ` fst ` set (data (wrapped s))"
    by (simp_all add: in_step_def)
  show ?thesis
  proof (cases "key \<in> fst ` set (data (wrapped s)) \<or>
                int (length (data (wrapped s))) + 1 \<le> maxsize (wrapped s)")
    case True
    let ?d = "AList.update key val (data (wrapped s))"
    let ?s' = "s\<lparr>wrapped := (wrapped s)\<lparr>data := ?d\<rparr>,
                 files := (files s)(f := AList.update (hash_key hsh key) (key, val) (files s f))\<rparr>"
    from call_Setitem_no_evict [OF m True, of hsh val] pd
    have "PersistentCache_setitem hsh key val s = Some (Inr (), ?s')"
      by (simp add: PersistentCache_setitem_def call_Initialize_settled [OF st] shelf_setitem_def)
    moreover have "int (length ?d) \<le> maxsize (wrapped s)"
    proof (cases "key \<in> fst ` set (data (wrapped s))")
      case True
      with len show ?thesis by (simp add: length_update_present)
    next
      case False
      with True show ?thesis by (simp add: update_absent)
    qed
    then have "in_step hsh K f ?s'"
      using fn pd h m dist sub mir k
      by (simp add: in_step_def distinct_update dom_update)
    ultimately show ?thesis by blast
  next
    case False
    then have new: "key \<notin> fst ` set (data (wrapped s))"
      and "int (length (data (wrapped s))) = maxsize (wrapped s)"
      using len by auto
    with m obtain k0 v0 rest where d: "data (wrapped s) = (k0, v0) # rest"
      by (cases "data (wrapped s)") auto
    from dist d have k0: "k0 \<notin> fst ` set rest" by auto
    from d \<open>int (length (data (wrapped s))) = maxsize (wrapped s)\<close>
    have full: "int (length rest) + 1 = maxsize (wrapped s)" by simp
    from mir d have inst: "hash_key hsh k0 \<in> fst ` set (files s f)" by simp
    let ?st = "AList.update (hash_key hsh key) (key, val) (AList.delete (hash_key hsh k0) (files s f))"
    let ?s' = "s\<lparr>wrapped := (wrapped s)\<lparr>data := AList.update key val rest\<rparr>,
                 files := (files s)(f := ?st),
                 cb_log := cb_log s @ [(k0, map fst rest)]\<rparr>"
    from call_Setitem_evict [OF h pd new d k0 full inst, of val] pd
    have "PersistentCache_setitem hsh key val s = Some (Inr (), ?s')"
      by (simp add: PersistentCache_setitem_def call_Initialize_settled [OF st] shelf_setitem_def)
    moreover have "fst ` set ?st = hash_key hsh ` fst ` set (AList.update key val rest)"
    proof -
      from sub d have "k0 \<in> K" "fst ` set rest \<subseteq> K" by auto
      with inj k0 have "hash_key hsh k0 \<notin> hash_key hsh ` fst ` set rest"
        by (auto dest: inj_onD)
      with mir d show ?thesis
        by (auto simp: dom_update dom_delete)
    qed
    moreover from new d have "key \<notin> fst ` set rest" by simp
    then have "int (length (AList.update key val rest)) \<le> maxsize (wrapped s)"
      using full by (simp add: update_absent)
    moreover from dist d have "distinct (map fst (AList.update key val rest))"
      by (simp add: distinct_update)
    moreover from sub d k have "fst ` set (AList.update key val rest) \<subseteq> K"
      by (auto simp: dom_update)
    ultimately have "in_step hsh K f ?s'"
      using fn pd h m by (simp add: in_step_def)
    with \<open>PersistentCache_setitem hsh key val s = Some (Inr (), ?s')\<close> show ?thesis by blast
  qed
qed

lemma delitem_in_step:
  assumes inv: "in_step hsh K f s" and inj: "inj_on (hash_key hsh) K"
  shows "\<exists>r s'. PersistentCache_delitem hsh key s = Some (r, s') \<and> in_step hsh K f s'"
proof -
  from inv have st: "settled s" by (rule in_step_settled)
  from inv have
    fn: "filename s = Some f" "f \<noteq> []" and pd: "persistent_dict s = Some f" and
    h: "hooked (wrapped s)" and m: "1 \<le> maxsize (wrapped s)" and
    len: "int (length (data (wrapped s))) \<le> maxsize (wrapped s)" and
    dist: "distinct (map fst (data (wrapped s)))" and
    sub: "fst ` set (data (wrapped s)) \<subseteq> K" and
    mir: "fst ` set (files s f) = hash_key hsh ` fst ` set (data (wrapped s))"
    by (simp_all add: in_step_def)
  show ?thesis
  proof (cases "key \<in> fst ` set (data (wrapped s))")
    case False
    then have "PersistentCache_delitem hsh key s = Some (Inl (KeyError (Inl key)), s)"
      by (simp add: PersistentCache_delitem_settled [OF st] call_Delitem Cache_delitem_def)
    with inv show ?thesis by blast
  next
    case True
    let ?d = "AList.delete key (data (wrapped s))"
    let ?s' = "s\<lparr>wrapped := (wrapped s)\<lparr>data := ?d\<rparr>,
                 cb_log := cb_log s @ [(key, map fst ?d)],
                 files := (files s)(f := AList.delete (hash_key hsh key) (files s f))\<rparr>"
    from True mir have "hash_key hsh key \<in> fst ` set (files s f)" by simp
    with True h pd have "PersistentCache_delitem hsh key s = Some (Inr (), ?s')"
      by (simp add: PersistentCache_delitem_settled [OF st] call_Delitem_settled [OF st]
          Cache_delitem_def shelf_delitem_def)
    moreover have "fst ` set (AList.delete (hash_key hsh key) (files s f)) = hash_key hsh ` fst ` set ?d"
    proof -
      from True sub have "key \<in> K" by auto
      with inj sub have "hash_key hsh ` (fst ` set (data (wrapped s)) - {key}) =
          hash_key hsh ` fst ` set (data (wrapped s)) - hash_key hsh ` {key}"
        by (intro inj_on_image_set_diff [where C = K]) auto
      with mir show ?thesis by (simp add: dom_delete)
    qed
    moreover have "int (length ?d) \<le> maxsize (wrapped s)"
      using len length_delete_le [of key "data (wrapped s)"] by simp
    moreover from sub have "fst ` set ?d \<subseteq> K" by (auto simp: dom_delete)
    ultimately have "in_step hsh K f ?s'"
      using fn pd h m dist by (simp add: in_step_def distinct_delete)
    with \<open>PersistentCache_delitem hsh key s = Some (Inr (), ?s')\<close> show ?thesis by blast
  qed
qed

lemma apply_operation_in_step:
  assumes inv: "in_step hsh K f s" and inj: "inj_on (hash_key hsh) K" and k: "operation_key p \<subseteq> K"
  shows "\<exists>r s'. apply_operation hsh p s = Some (r, s') \<and> in_step hsh K f s'"
proof -
  from inv have st: "settled s" by (rule in_step_settled)
  show ?thesis
  proof (cases p)
    case (Set key val)
    with k have "key \<in> K" by (simp add: operation_key_def)
    from setitem_in_step [OF inv inj this, of val] Set show ?thesis
      by (auto simp: apply_operation_def returning_def)
  next
    case (Get key)
    with inv show ?thesis
      by (simp add: apply_operation_def returning_def PersistentCache_getitem_def
          call_Initialize_settled [OF st])
  next
    case (Delete key)
    from delitem_in_step [OF inv inj, of key] Delete show ?thesis
      by (auto simp: apply_operation_def returning_def)
  next
    case (Contains key)
    with inv show ?thesis
      by (simp add: apply_operation_def returning_def PersistentCache_contains_def
          call_Initialize_settled [OF st])
  next
    case (Getattr a)
    with inv show ?thesis
      by (simp add: apply_operation_def returning_def PersistentCache_getattr_def
          call_Initialize_settled [OF st])
  qed
qed

lemma run_operations_in_step:
  assumes "in_step hsh K f s" and "inj_on (hash_key hsh) K" and "\<forall>p \<in> set ps. operation_key p \<subseteq> K"
  shows "\<exists>rs s'. run_operations hsh ps s = Some (rs, s') \<and> in_step hsh K f s'"
  using assms
proof (induction ps arbitrary: s)
  case Nil
  then show ?case by simp
next
  case (Cons p ps)
  from Cons.prems have "operation_key p \<subseteq> K" by simp
  from apply_operation_in_step [OF Cons.prems(1,2) this] obtain r s1 where
    a: "apply_operation hsh p s = Some (r, s1)" and i: "in_step hsh K f s1" by blast
  from Cons.prems have "\<forall>p \<in> set ps. operation_key p \<subseteq> K" by simp
  from Cons.IH [OF i Cons.prems(2) this] obtain rs s' where
    "run_operations hsh ps s1 = Some (rs, s')" and "in_step hsh K f s'" by blast
  with a show ?case by simp
qed

lemma apply_operation_after_initialize:
  assumes "call hsh Initialize s = Some (Inr (), s1)" and "settled s1"
  shows "apply_operation hsh p s = apply_operation hsh p s1"
  using assms
  by (cases p)
    (simp_all add: apply_operation_def PersistentCache_setitem_def PersistentCache_getitem_def
      PersistentCache_delitem_def PersistentCache_contains_def PersistentCache_getattr_def
      call_Initialize_settled)

lemma in_step_mirrors: "in_step hsh K f s \<Longrightarrow> store_mirrors_cache hsh s"
  by (simp add: in_step_def store_mirrors_cache_def image_image)

section \<open>Stores that return\<close>

lemma bare_evict_succeeds: "1 \<le> maxsize c \<Longrightarrow> fst (bare_evict c) = Inr ()"
proof (induction c rule: bare_evict.induct)
  case (1 c)
  show ?case
  proof (cases "int (length (data c)) + 1 > maxsize c")
    case False
    then show ?thesis by simp
  next
    case True
    with 1(2) obtain kv rest where d: "data c = kv # rest" by (cases "data c") auto
    let ?c' = "c\<lparr>data := AList.delete (fst kv) rest\<rparr>"
    from d have p: "bare_popitem c = (Inr (), ?c')"
      by (simp add: bare_popitem_def bare_pop_def Cache_delitem_def)
    from 1(1) [OF True p [symmetric]] 1(2) have "fst (bare_evict ?c') = Inr ()" by simp
    with True p show ?thesis by simp
  qed
qed

lemma bare_setitem_succeeds: "1 \<le> maxsize c \<Longrightarrow> fst (bare_setitem key val c) = Inr ()"
proof -
  assume m: "1 \<le> maxsize c"
  obtain r c' where e: "bare_evict c = (r, c')" by (cases "bare_evict c")
  with bare_evict_succeeds [OF m] have "r = Inr ()" by simp
  with e m show ?thesis by (simp add: bare_setitem_def)
qed

lemma setitem_disabled:
  assumes "disabled s" and "1 \<le> maxsize (wrapped s)"
  shows "\<exists>s'. PersistentCache_setitem hsh key val s = Some (Inr (), s')"
proof -
  from assms(1) have st: "settled s" by (rule disabled_settled)
  from assms(1) have h: "\<not> hooked (wrapped s)" and pd: "persistent_dict s = None"
    by (simp_all add: disabled_def)
  from bare_setitem_succeeds [OF assms(2), of key val] h pd show ?thesis
    by (simp add: PersistentCache_setitem_def call_Initialize_settled [OF st] call_Setitem_bare)
qed

lemma setitem_fresh:
  assumes f: "f \<noteq> []" and m: "1 \<le> m" and wf: "wf_shelf hsh (disk f)"
    and dK: "(\<lambda>e. fst (snd e)) ` set (disk f) \<subseteq> K"
    and inj: "inj_on (hash_key hsh) K" and k: "key \<in> K"
  shows "\<exists>s'. PersistentCache_setitem hsh key val (PersistentCache_init m (Some f) disk) =
              Some (Inr (), s')"
proof -
  from in_step_after_initialize [where disk = disk, OF f m wf dK] obtain s1 where
    i: "call hsh Initialize (PersistentCache_init m (Some f) disk) = Some (Inr (), s1)" and
    s1: "in_step hsh K f s1" by blast
  from i have "PersistentCache_setitem hsh key val (PersistentCache_init m (Some f) disk) =
                 PersistentCache_setitem hsh key val s1"
    by (simp add: PersistentCache_setitem_def call_Initialize_settled [OF in_step_settled [OF s1]])
  with setitem_in_step [OF s1 inj k, of val] show ?thesis by auto
qed

section \<open>Facts for the examples\<close>

lemma hash_key_small [simp]:
  "hash_key hash_int 1 = ''1''" "hash_key hash_int 2 = ''2''"
  by (simp_all add: hash_key_def hash_int_def str_int_def digits.simps)

lemma empty_disk_apply [simp]: "empty_disk g = []"
  by (simp add: empty_disk_def)

lemma disk_of_upd: "(empty_disk :: string \<Rightarrow> ('k, 'v) shelf)(f := st) = disk_of f st"
  by (auto simp: empty_disk_def disk_of_def)

section \<open>Persistence disabled\<close>


text \<open>
  For the operations that reach the class (get, set, contains, attribute access, and delete as
  the call \<open>pc.__delitem__(key)\<close>) a persistent cache built with no filename gives, for every
  sequence, the results and exceptions of the bare cache, one for one, and its wrapped cache ends
  as the bare cache does. The shelf is never opened (\<open>persistent_dict\<close> stays \<open>None\<close>, the disk
  is as it was), the callback is not installed (the class is the plain cache class) and is never
  called (the log stays empty).
\<close>

theorem disabled_is_bare_cache:
  "run_operations hsh ps (PersistentCache_init m None disk) =
     Some (fst (bare_run ps (Cache_init m)),
           \<lparr>wrapped = snd (bare_run ps (Cache_init m)), filename = None, persistent_dict = None,
            files = disk, cb_log = []\<rparr>) \<and>
   \<not> hooked (snd (bare_run ps (Cache_init m)))"
proof -
  have "disabled (PersistentCache_init m None disk :: ('a, 'b) world)"
    by (simp add: disabled_def PersistentCache_init_def truthy_def Cache_init_def)
  from run_operations_disabled [OF this, of hsh ps] show ?thesis
    by (simp add: PersistentCache_init_def truthy_def hooked_bare_run Cache_init_def)
qed

text \<open>
  C9. The empty string as filename disables persistence as \<open>None\<close> does: for every sequence of
  operations both give the results of the bare cache, the shelf is never opened, the disk is
  untouched, and the callback is neither installed nor called.
\<close>

theorem empty_filename_disables:
  "run_operations hsh ps (PersistentCache_init m (Some []) disk) =
     Some (fst (bare_run ps (Cache_init m)),
           \<lparr>wrapped = snd (bare_run ps (Cache_init m)), filename = Some [], persistent_dict = None,
            files = disk, cb_log = []\<rparr>) \<and>
   run_operations hsh ps (PersistentCache_init m None disk) =
     Some (fst (bare_run ps (Cache_init m)),
           \<lparr>wrapped = snd (bare_run ps (Cache_init m)), filename = None, persistent_dict = None,
            files = disk, cb_log = []\<rparr>) \<and>
   \<not> hooked (wrapped (PersistentCache_init m (Some []) disk)) \<and>
   \<not> hooked (snd (bare_run ps (Cache_init m)))"
proof -
  have a: "disabled (PersistentCache_init m (Some []) disk :: ('a, 'b) world)"
    by (simp add: disabled_def PersistentCache_init_def truthy_def Cache_init_def)
  have b: "disabled (PersistentCache_init m None disk :: ('a, 'b) world)"
    by (simp add: disabled_def PersistentCache_init_def truthy_def Cache_init_def)
  from run_operations_disabled [OF a, of hsh ps] run_operations_disabled [OF b, of hsh ps]
  show ?thesis
    by (simp add: PersistentCache_init_def truthy_def hooked_bare_run Cache_init_def)
qed

section \<open>Deletion\<close>

text \<open>
  C4, as stated, fails when the delete is the first operation: on a new persistent cache of
  capacity 1 over a file with the records of \<open>1\<close> and \<open>2\<close>, the call \<open>pc.__delitem__(9)\<close>
  raises \<open>KeyError(9)\<close> for the absent key, yet the initialization it runs first has loaded both
  records, evicted \<open>1\<close>, called the callback for it and deleted its record from the file.
\<close>

theorem delete_counterexample:
  "observe_log ''f'' (PersistentCache_delitem hash_int 9
      (PersistentCache_init 1 (Some ''f'') (disk_of ''f'' [(''1'', (1::int, 10::int)), (''2'', (2, 20))]))) =
   Some (Inl (KeyError (Inl 9)), [(''2'', (2, 20))], [1])"
  by code_simp

text \<open>
  C4, amended. A delete (the call \<open>pc.__delitem__(key)\<close>) first runs
  \<open>initialize_if_not_initialized\<close>, which leaves a state \<open>s1\<close> (the state itself when the
  shelf is open or persistence is disabled). If \<open>s1\<close> does not hold the key, the delete raises
  the \<open>KeyError(key)\<close> that the wrapped cache's own \<open>__delitem__\<close> raises and the state is
  \<open>s1\<close>: beyond the initialization the shelf is not touched and the callback is not called. If
  \<open>s1\<close> holds the key and the callback is installed, the key is removed and the callback is
  called exactly once, for that key, after the removal (the call sees the cache without the key);
  and when the open shelf has the key's record, the delete returns and the record is gone.
\<close>

theorem delete_absent_and_present:
  assumes init: "call hsh Initialize s = Some (Inr (), s1)"
  shows "(\<not> Cache_contains key (wrapped s1) \<longrightarrow>
            PersistentCache_delitem hsh key s = Some (Inl (KeyError (Inl key)), s1) \<and>
            Cache_delitem key (wrapped s1) = Inl (KeyError (Inl key))) \<and>
         (Cache_contains key (wrapped s1) \<and> hooked (wrapped s1) \<longrightarrow>
            (\<exists>r s'. PersistentCache_delitem hsh key s = Some (r, s') \<and>
               data (wrapped s') = AList.delete key (data (wrapped s1)) \<and>
               cb_log s' = cb_log s1 @ [(key, map fst (data (wrapped s')))] \<and>
               key \<notin> set (map fst (data (wrapped s'))) \<and>
               (\<forall>f. persistent_dict s1 = Some f \<and> hash_key hsh key \<in> fst ` set (files s1 f) \<longrightarrow>
                  r = Inr () \<and>
                  files s' = (files s1)(f := AList.delete (hash_key hsh key) (files s1 f)))))"
proof -
  from call_frame_aux [OF init] have st: "settled s1" by simp
  from init have d: "PersistentCache_delitem hsh key s = call hsh (Delitem key) s1"
    by (simp add: PersistentCache_delitem_def)
  show ?thesis
  proof (intro conjI impI)
    assume "\<not> Cache_contains key (wrapped s1)"
    then show "PersistentCache_delitem hsh key s = Some (Inl (KeyError (Inl key)), s1)"
      by (simp add: d call_Delitem Cache_delitem_def Cache_contains_def)
  next
    assume "\<not> Cache_contains key (wrapped s1)"
    then show "Cache_delitem key (wrapped s1) = Inl (KeyError (Inl key))"
      by (simp add: Cache_delitem_def Cache_contains_def)
  next
    assume a: "Cache_contains key (wrapped s1) \<and> hooked (wrapped s1)"
    then show "\<exists>r s'. PersistentCache_delitem hsh key s = Some (r, s') \<and>
               data (wrapped s') = AList.delete key (data (wrapped s1)) \<and>
               cb_log s' = cb_log s1 @ [(key, map fst (data (wrapped s')))] \<and>
               key \<notin> set (map fst (data (wrapped s'))) \<and>
               (\<forall>f. persistent_dict s1 = Some f \<and> hash_key hsh key \<in> fst ` set (files s1 f) \<longrightarrow>
                  r = Inr () \<and>
                  files s' = (files s1)(f := AList.delete (hash_key hsh key) (files s1 f)))"
      using not_in_delete [of key "data (wrapped s1)"]
      by (auto simp: d call_Delitem_settled [OF st] Cache_delitem_def Cache_contains_def
          shelf_delitem_def split: option.splits)
  qed
qed

theorem delete_absent_and_present_witness:
  "call hash_int Initialize (PersistentCache_init 1 (Some ''f'') (disk_of ''f'' [(''1'', (1::int, 10::int))])) =
     Some (Inr (), opened_one) \<and>
   \<not> Cache_contains 9 (wrapped opened_one) \<and>
   PersistentCache_delitem hash_int 9 (PersistentCache_init 1 (Some ''f'') (disk_of ''f'' [(''1'', (1::int, 10::int))])) =
     Some (Inl (KeyError (Inl 9)), opened_one) \<and>
   Cache_contains 1 (wrapped opened_one) \<and> hooked (wrapped opened_one) \<and>
   persistent_dict opened_one = Some ''f'' \<and>
   hash_key hash_int 1 \<in> fst ` set (files opened_one ''f'') \<and>
   (\<exists>s'. PersistentCache_delitem hash_int 1 (PersistentCache_init 1 (Some ''f'') (disk_of ''f'' [(''1'', (1::int, 10::int))])) =
            Some (Inr (), s') \<and>
         data (wrapped s') = [] \<and> cb_log s' = [(1, [])] \<and> files s' ''f'' = [])"
proof -
  let ?s = "PersistentCache_init 1 (Some ''f'') (disk_of ''f'' [(''1'', (1, 10))]) :: (int, int) world"
  have i: "call hash_int Initialize ?s = Some (Inr (), opened_one)"
    by (simp add: PersistentCache_init_def call_Initialize call_Load_Cons call_Load_Nil
        call_Setitem call_Evict truthy_def Cache_init_def shelf_getitem_def opened_one_def
        disk_of_def)
  have a: "\<not> Cache_contains 9 (wrapped opened_one)"
    and b: "Cache_contains 1 (wrapped opened_one) \<and> hooked (wrapped opened_one)"
    and c: "persistent_dict opened_one = Some ''f'' \<and>
            hash_key hash_int 1 \<in> fst ` set (files opened_one ''f'')"
    by (simp_all add: opened_one_def Cache_contains_def disk_of_def)
  from delete_absent_and_present [OF i, of 9] a
  have 1: "PersistentCache_delitem hash_int 9 ?s = Some (Inl (KeyError (Inl 9)), opened_one)"
    by simp
  from delete_absent_and_present [OF i, of 1] b c obtain r s' where
    2: "PersistentCache_delitem hash_int 1 ?s = Some (r, s')"
       "data (wrapped s') = AList.delete 1 (data (wrapped opened_one))"
       "cb_log s' = cb_log opened_one @ [(1, map fst (data (wrapped s')))]"
       "r = Inr ()"
       "files s' = (files opened_one)(''f'' := AList.delete (hash_key hash_int 1) (files opened_one ''f''))"
    by blast
  from 2 have "PersistentCache_delitem hash_int 1 ?s = Some (Inr (), s') \<and>
         data (wrapped s') = [] \<and> cb_log s' = [(1, [])] \<and> files s' ''f'' = []"
    by (simp add: opened_one_def disk_of_def)
  with i a b c 1 show ?thesis by blast
qed

text \<open>
  C10. When the callback fires for a key whose hashed string key is not in the open shelf, the
  delete raises \<open>KeyError\<close> (with the string key) to its caller, and the key is gone from the
  in-memory cache all the same: the removal is not rolled back. The shelf is as it was.
\<close>

theorem delete_store_key_absent:
  assumes "hooked (wrapped s)" and "persistent_dict s = Some f"
    and "Cache_contains key (wrapped s)"
    and "hash_key hsh key \<notin> fst ` set (files s f)"
  shows "\<exists>s'. PersistentCache_delitem hsh key s = Some (Inl (KeyError (Inr (hash_key hsh key))), s') \<and>
              data (wrapped s') = AList.delete key (data (wrapped s)) \<and>
              \<not> Cache_contains key (wrapped s') \<and>
              files s' = files s"
proof -
  from assms(2) have st: "settled s" by (simp add: settled_def)
  show ?thesis
    using assms
    by (simp add: PersistentCache_delitem_settled [OF st] call_Delitem_settled [OF st]
        Cache_delitem_def Cache_contains_def shelf_delitem_def not_in_delete)
qed

theorem delete_store_key_absent_witness:
  "hooked (wrapped collided) \<and> persistent_dict collided = Some ''f'' \<and>
   Cache_contains (- 2) (wrapped collided) \<and>
   hash_key hash_int (- 2) \<notin> fst ` set (files collided ''f'') \<and>
   (\<exists>s'. PersistentCache_delitem hash_int (- 2) collided =
            Some (Inl (KeyError (Inr (hash_key hash_int (- 2)))), s') \<and>
         data (wrapped s') = AList.delete (- 2) (data (wrapped collided)) \<and>
         \<not> Cache_contains (- 2) (wrapped s') \<and>
         files s' = files collided)"
proof -
  have a: "hooked (wrapped collided)" and b: "persistent_dict collided = Some ''f''"
    and c: "Cache_contains (- 2) (wrapped collided)"
    and d: "hash_key hash_int (- 2) \<notin> fst ` set (files collided ''f'')"
    by (simp_all add: collided_def Cache_contains_def empty_disk_def)
  from delete_store_key_absent [OF a b c d] a b c d show ?thesis by blast
qed

section \<open>Closing\<close>

text \<open>
  C7. \<open>close\<close> never raises; closing twice leaves the state that closing once leaves; and
  closing when no shelf is open (never opened, or persistence disabled) changes nothing.
\<close>

theorem close_idempotent:
  "PersistentCache_close (snd (PersistentCache_close s)) = PersistentCache_close s \<and>
   fst (PersistentCache_close s) = Inr () \<and>
   (persistent_dict s = None \<longrightarrow> PersistentCache_close s = (Inr (), s))"
  by (simp add: PersistentCache_close_def split: option.splits)

theorem close_idempotent_witness:
  "persistent_dict (PersistentCache_init 1 None empty_disk :: (int, int) world) = None \<and>
   PersistentCache_close (PersistentCache_init 1 None empty_disk :: (int, int) world) =
     (Inr (), PersistentCache_init 1 None empty_disk)"
  using close_idempotent [of "PersistentCache_init 1 None empty_disk :: (int, int) world"]
  by (simp add: PersistentCache_init_def)

section \<open>The store mirrors the cache\<close>

text \<open>
  C1, as stated, fails: the keys \<open>-1\<close> and \<open>-2\<close> have the same hash, so they share one
  string key. After \<open>set(-1, 1)\<close>, \<open>set(-2, 2)\<close>, \<open>delete(-1)\<close> on a new cache of
  capacity 2 over an empty file, the shelf is empty and the cache still holds \<open>-2\<close>.
\<close>

theorem mirror_counterexample:
  "fails_after (store_mirrors_cache hash_int)
     (run_operations hash_int [Set (- 1) (1::int), Set (- 2) 2, Delete (- 1)]
        (PersistentCache_init 2 (Some ''f'') empty_disk))"
  by code_simp

text \<open>
  C1, amended. Let \<open>hash_key\<close> be injective on a set \<open>K\<close> of keys, the capacity be at least
  1, and the file hold, when the cache is built, one record per string key, each under the hashed
  key of its own key, all keys in \<open>K\<close>. Then after every non-empty sequence of operations on
  keys of \<open>K\<close> (set and delete, and get, contains and attribute reads as well) every operation
  has returned or raised, the shelf is open, and the set of string keys in it is exactly the set
  of hashed keys of the in-memory cache. Every prefix of a sequence is a sequence, so this holds
  between any two operations.
\<close>

theorem mirror_invariant:
  assumes f: "f \<noteq> []" and m: "1 \<le> m" and wf: "wf_shelf hsh (disk f)"
    and inj: "inj_on (hash_key hsh) K"
    and dK: "(\<lambda>e. fst (snd e)) ` set (disk f) \<subseteq> K"
    and pK: "\<forall>p \<in> set ps. operation_key p \<subseteq> K"
    and ne: "ps \<noteq> []"
  shows "holds_after (store_mirrors_cache hsh)
           (run_operations hsh ps (PersistentCache_init m (Some f) disk))"
proof -
  from ne obtain p ps' where ps: "ps = p # ps'" by (cases ps) auto
  from in_step_after_initialize [where disk = disk, OF f m wf dK] obtain s1 where
    i: "call hsh Initialize (PersistentCache_init m (Some f) disk) = Some (Inr (), s1)" and
    s1: "in_step hsh K f s1" by blast
  from apply_operation_after_initialize [OF i in_step_settled [OF s1]]
  have "run_operations hsh ps (PersistentCache_init m (Some f) disk) = run_operations hsh ps s1"
    by (simp add: ps)
  moreover from run_operations_in_step [OF s1 inj pK] obtain rs s' where
    "run_operations hsh ps s1 = Some (rs, s')" and "in_step hsh K f s'" by blast
  ultimately show ?thesis
    by (simp add: holds_after_def in_step_mirrors)
qed

theorem mirror_invariant_witness:
  "holds_after (store_mirrors_cache hash_int)
     (run_operations hash_int [Set 1 (10::int), Set 2 20, Delete 2]
        (PersistentCache_init 1 (Some ''f'') empty_disk))"
proof -
  have "wf_shelf hash_int (empty_disk ''f'' :: (int, int) shelf)"
    by (simp add: wf_shelf_def empty_disk_def)
  moreover have "inj_on (hash_key hash_int) {1, 2}" by simp
  moreover have "(\<lambda>e. fst (snd e)) ` set (empty_disk ''f'' :: (int, int) shelf) \<subseteq> {1, 2}"
    by (simp add: empty_disk_def)
  moreover have "\<forall>p \<in> set [Set 1 (10::int), Set 2 20, Delete 2]. operation_key p \<subseteq> {1, 2}"
    by (simp add: operation_key_def)
  ultimately show ?thesis
    by (intro mirror_invariant [where K = "{1, 2}"]) simp_all
qed

section \<open>Eviction reaches the store\<close>

text \<open>
  C2. On a persistent cache of capacity 1 over an empty file, \<open>set(a, v1)\<close> then
  \<open>set(b, v2)\<close> with \<open>a \<noteq> b\<close> both return; the second evicts \<open>a\<close>, the callback is called
  for \<open>a\<close> (and for nothing else) and removes its record, so the file holds only the record of
  \<open>b\<close>. A new persistent cache over the same file holds \<open>b\<close> with its value and does not
  hold \<open>a\<close>.
\<close>

theorem eviction_propagates:
  assumes ab: "a \<noteq> b" and f: "f \<noteq> []" and empty: "disk f = []"
  shows "\<exists>s1 s2 s3.
           PersistentCache_setitem hsh a v1 (PersistentCache_init 1 (Some f) disk) = Some (Inr (), s1) \<and>
           PersistentCache_setitem hsh b v2 s1 = Some (Inr (), s2) \<and>
           map fst (cb_log s2) = [a] \<and>
           files s2 f = [(hash_key hsh b, (b, v2))] \<and>
           PersistentCache_contains hsh b (PersistentCache_init 1 (Some f) (files s2)) = Some (Inr True, s3) \<and>
           PersistentCache_contains hsh a (PersistentCache_init 1 (Some f) (files s2)) = Some (Inr False, s3) \<and>
           data (wrapped s3) = [(b, v2)]"
proof -
  let ?s1 = "\<lparr>wrapped = \<lparr>maxsize = 1, data = [(a, v1)], hooked = True\<rparr>,
              filename = Some f, persistent_dict = Some f,
              files = disk(f := [(hash_key hsh a, (a, v1))]), cb_log = []\<rparr>"
  let ?s2 = "\<lparr>wrapped = \<lparr>maxsize = 1, data = [(b, v2)], hooked = True\<rparr>,
              filename = Some f, persistent_dict = Some f,
              files = disk(f := [(hash_key hsh b, (b, v2))]), cb_log = [(a, [])]\<rparr>"
  let ?s3 = "\<lparr>wrapped = \<lparr>maxsize = 1, data = [(b, v2)], hooked = True\<rparr>,
              filename = Some f, persistent_dict = Some f,
              files = disk(f := [(hash_key hsh b, (b, v2))]), cb_log = []\<rparr>"
  have 1: "PersistentCache_setitem hsh a v1 (PersistentCache_init 1 (Some f) disk) = Some (Inr (), ?s1)"
    using f empty
    by (simp add: PersistentCache_setitem_def PersistentCache_init_def call_Initialize call_Setitem
        call_Evict call_Load_Nil truthy_def Cache_init_def shelf_setitem_def)
  have st: "settled ?s1" by (simp add: settled_def)
  from ab call_Setitem_evict [where s = ?s1 and f = f and key = b and ?k0.0 = a and ?v0.0 = v1
      and rest = "[]" and hsh = hsh and val = v2]
  have 2: "PersistentCache_setitem hsh b v2 ?s1 = Some (Inr (), ?s2)"
    by (simp add: PersistentCache_setitem_def call_Initialize_settled [OF st] shelf_setitem_def)
  have 3: "call hsh Initialize (PersistentCache_init 1 (Some f) (files ?s2)) = Some (Inr (), ?s3)"
    using f
    by (simp add: PersistentCache_init_def call_Initialize call_Load_Cons call_Load_Nil
        call_Setitem call_Evict truthy_def Cache_init_def shelf_getitem_def)
  from 3 ab have 4:
    "PersistentCache_contains hsh b (PersistentCache_init 1 (Some f) (files ?s2)) = Some (Inr True, ?s3)"
    "PersistentCache_contains hsh a (PersistentCache_init 1 (Some f) (files ?s2)) = Some (Inr False, ?s3)"
    by (simp_all add: PersistentCache_contains_def Cache_contains_def)
  from 1 2 4 show ?thesis
    by (intro exI [of _ ?s1] exI [of _ ?s2] exI [of _ ?s3]) simp
qed

theorem eviction_propagates_witness:
  "\<exists>s1 s2 s3.
     PersistentCache_setitem hash_int (- 1) (1::int) (PersistentCache_init 1 (Some ''f'') empty_disk) = Some (Inr (), s1) \<and>
     PersistentCache_setitem hash_int (- 2) 2 s1 = Some (Inr (), s2) \<and>
     map fst (cb_log s2) = [- 1] \<and>
     files s2 ''f'' = [(hash_key hash_int (- 2), (- 2, 2))] \<and>
     PersistentCache_contains hash_int (- 2) (PersistentCache_init 1 (Some ''f'') (files s2)) = Some (Inr True, s3) \<and>
     PersistentCache_contains hash_int (- 1) (PersistentCache_init 1 (Some ''f'') (files s2)) = Some (Inr False, s3) \<and>
     data (wrapped s3) = [(- 2, 2)]"
  using eviction_propagates [of "- 1" "- 2" "''f''" empty_disk hash_int 1 2]
  by simp

section \<open>Set, then get\<close>

text \<open>
  C5, as stated, fails: on a new persistent cache of capacity 2 over an empty file, after
  \<open>set(-1, 1)\<close>, \<open>set(-2, 2)\<close>, \<open>set(3, 3)\<close> the keys \<open>-1\<close> and \<open>-2\<close> have shared one
  record, which the eviction of \<open>-1\<close> deleted. \<open>set(4, 4)\<close>, which the wrapped cache accepts,
  evicts \<open>-2\<close>, the callback finds no record and raises \<open>KeyError\<close>, and \<open>get(4)\<close> raises
  \<open>KeyError(4)\<close>.
\<close>

theorem set_then_get_counterexample:
  "observe ''f'' (run_operations hash_int [Set (- 1) (1::int), Set (- 2) 2, Set 3 3, Set 4 4, Get 4]
        (PersistentCache_init 2 (Some ''f'') empty_disk)) =
   Some ([Inr PyNone, Inr PyNone, Inr PyNone, Inl (KeyError (Inr ''-2'')), Inl (KeyError (Inl 4))],
         [(3, 3)], [(''3'', (3, 3))])"
  by code_simp

text \<open>
  C5, amended. Whenever \<open>set(key, val)\<close> returns, in any state and with or without persistence,
  the \<open>get(key)\<close> that follows returns \<open>val\<close> and changes nothing. And \<open>set\<close> does return
  when the capacity is at least 1 and persistence is disabled; or, on keys whose hashed keys are
  distinct, when the cache is between two operations with its shelf open and mirroring it, or is
  new over a file that holds one record per string key, each under the hashed key of its own key.
\<close>

theorem set_then_get:
  "(PersistentCache_setitem hsh key val s = Some (Inr (), s') \<longrightarrow>
      PersistentCache_getitem hsh key s' = Some (Inr val, s')) \<and>
   (1 \<le> maxsize (wrapped s) \<and>
    (disabled s \<or> in_step hsh K f s \<and> inj_on (hash_key hsh) K \<and> key \<in> K) \<longrightarrow>
      (\<exists>s''. PersistentCache_setitem hsh key val s = Some (Inr (), s''))) \<and>
   (1 \<le> m \<and> f \<noteq> [] \<and> wf_shelf hsh (disk f) \<and> (\<lambda>e. fst (snd e)) ` set (disk f) \<subseteq> K \<and>
    inj_on (hash_key hsh) K \<and> key \<in> K \<longrightarrow>
      (\<exists>s''. PersistentCache_setitem hsh key val (PersistentCache_init m (Some f) disk) =
             Some (Inr (), s'')))"
  using setitem_then_getitem_aux [of hsh key val s s'] setitem_disabled [of s hsh key val]
    setitem_in_step [of hsh K f s key val] setitem_fresh [of f m hsh disk K key val]
  by blast

theorem set_then_get_witness:
  "PersistentCache_setitem hash_int 1 10 (PersistentCache_init 1 None empty_disk) = Some (Inr (), plain_one) \<and>
   PersistentCache_getitem hash_int 1 plain_one = Some (Inr 10, plain_one) \<and>
   PersistentCache_setitem hash_int 1 10 (PersistentCache_init 1 (Some ''f'') empty_disk) = Some (Inr (), opened_one) \<and>
   PersistentCache_getitem hash_int 1 opened_one = Some (Inr 10, opened_one) \<and>
   1 \<le> maxsize (wrapped opened_one) \<and> in_step hash_int {1, 2} ''f'' opened_one \<and>
   inj_on (hash_key hash_int) {1, 2} \<and>
   (\<exists>s''. PersistentCache_setitem hash_int 2 20 opened_one = Some (Inr (), s'')) \<and>
   wf_shelf hash_int (empty_disk ''f'' :: (int, int) shelf) \<and>
   (\<exists>s''. PersistentCache_setitem hash_int 2 (20::int) (PersistentCache_init 1 (Some ''f'') empty_disk) =
          Some (Inr (), s''))"
proof -
  have a: "PersistentCache_setitem hash_int 1 10 (PersistentCache_init 1 None empty_disk) = Some (Inr (), plain_one)"
    by (simp add: PersistentCache_setitem_def PersistentCache_init_def call_Initialize call_Setitem
        call_Evict truthy_def Cache_init_def plain_one_def)
  have b: "PersistentCache_setitem hash_int 1 10 (PersistentCache_init 1 (Some ''f'') empty_disk) = Some (Inr (), opened_one)"
    by (simp add: PersistentCache_setitem_def PersistentCache_init_def call_Initialize call_Setitem
        call_Evict call_Load_Nil truthy_def Cache_init_def opened_one_def shelf_setitem_def
        disk_of_upd)
  have c: "1 \<le> maxsize (wrapped opened_one) \<and> in_step hash_int {1, 2} ''f'' opened_one \<and>
           inj_on (hash_key hash_int) {1, 2}"
    by (simp add: in_step_def opened_one_def disk_of_def)
  have d: "wf_shelf hash_int (empty_disk ''f'' :: (int, int) shelf)"
    by (simp add: wf_shelf_def)
  from a b c d set_then_get [of hash_int 1 10 "PersistentCache_init 1 None empty_disk" plain_one]
    set_then_get [of hash_int 1 10 "PersistentCache_init 1 (Some ''f'') empty_disk" opened_one]
    set_then_get [of hash_int 2 20 opened_one _ "{1, 2}" "''f''" 1 "empty_disk :: string \<Rightarrow> (int, int) shelf"]
  show ?thesis by simp
qed

section \<open>The load pass on the first operation\<close>

text \<open>
  C6, as stated, fails for a record that does not sit under the hashed key of its own key: with
  capacity 1 and the records \<open>(5, 50)\<close> under \<open>orphan\<close> and \<open>(7, 70)\<close> under \<open>7\<close>, loading
  \<open>7\<close> evicts \<open>5\<close>, the callback deletes the string key \<open>5\<close>, which the shelf does not
  have, and the load pass ends in \<open>KeyError\<close> with the cache empty and the file as it was.
\<close>

theorem load_counterexample:
  "observe ''f'' (call hash_int Initialize
      (PersistentCache_init 1 (Some ''f'') (disk_of ''f'' [(''orphan'', (5::int, 50::int)), (''7'', (7, 70))]))) =
   Some (Inl (KeyError (Inr ''5'')), [], [(''orphan'', (5, 50)), (''7'', (7, 70))])"
  by code_simp

text \<open>
  C6, amended. If the capacity is at least 1 and the file holds one record per string key, each
  under the hashed key of its own key, then \<open>initialize_if_not_initialized\<close> on a new
  persistent cache returns: the records \<open>E\<close> at the front of the file were loaded and then
  evicted, the callback was called for exactly their keys, in order, and their records are gone
  from the file; the other records are the items of the cache, which holds as many as the file had
  or the capacity allows; and the store mirrors the cache. A first operation such as reading
  \<open>currsize\<close> runs this pass and returns that number.
\<close>

theorem load_pass:
  assumes f: "f \<noteq> []" and m: "1 \<le> m" and wf: "wf_shelf hsh (disk f)"
  shows "\<exists>s' E. call hsh Initialize (PersistentCache_init m (Some f) disk) = Some (Inr (), s') \<and>
           disk f = E @ files s' f \<and>
           map fst (cb_log s') = map (\<lambda>e. fst (snd e)) E \<and>
           data (wrapped s') = map snd (files s' f) \<and>
           length (data (wrapped s')) = min (length (disk f)) (nat m) \<and>
           store_mirrors_cache hsh s' \<and>
           PersistentCache_getattr hsh Attr_currsize (PersistentCache_init m (Some f) disk) =
             Some (Inr (int (min (length (disk f)) (nat m))), s')"
proof -
  from initialize_fresh [where disk = disk, OF f m wf] obtain s' E where
    i: "call hsh Initialize (PersistentCache_init m (Some f) disk) = Some (Inr (), s')" and
    r: "disk f = E @ files s' f" "data (wrapped s') = map snd (files s' f)"
       "length (files s' f) = min (length (disk f)) (nat m)"
       "map fst (cb_log s') = map (\<lambda>e. fst (snd e)) E"
    by blast
  from in_step_after_initialize [where disk = disk and K = UNIV, OF f m wf] i
  have "in_step hsh UNIV f s'" by simp
  then have "store_mirrors_cache hsh s'" by (rule in_step_mirrors)
  with i r show ?thesis
    by (intro exI [of _ s'] exI [of _ E])
      (simp add: PersistentCache_getattr_def Cache_getattr_def)
qed

theorem load_pass_witness:
  "\<exists>s' E. call hash_int Initialize
             (PersistentCache_init 1 (Some ''f'') (disk_of ''f'' [(''1'', (1::int, 10::int)), (''2'', (2, 20))])) =
           Some (Inr (), s') \<and>
           disk_of ''f'' [(''1'', (1, 10)), (''2'', (2, 20))] ''f'' = E @ files s' ''f'' \<and>
           map fst (cb_log s') = map (\<lambda>e. fst (snd e)) E \<and>
           data (wrapped s') = map snd (files s' ''f'') \<and>
           length (data (wrapped s')) = min (length (disk_of ''f'' [(''1'', (1::int, 10::int)), (''2'', (2, 20))] ''f'')) (nat 1) \<and>
           store_mirrors_cache hash_int s' \<and>
           PersistentCache_getattr hash_int Attr_currsize
             (PersistentCache_init 1 (Some ''f'') (disk_of ''f'' [(''1'', (1::int, 10::int)), (''2'', (2, 20))])) =
             Some (Inr (int (min (length (disk_of ''f'' [(''1'', (1::int, 10::int)), (''2'', (2, 20))] ''f'')) (nat 1))), s')"
proof -
  have "wf_shelf hash_int (disk_of ''f'' [(''1'', (1::int, 10::int)), (''2'', (2, 20))] ''f'')"
    by (simp add: wf_shelf_def disk_of_def)
  then show ?thesis
    by (intro load_pass) simp_all
qed

section \<open>Reads\<close>

text \<open>
  C8, as stated, fails on the first operation: \<open>get(1)\<close> on a new persistent cache of
  capacity 1 over a file with the records of \<open>1\<close> and \<open>2\<close> opens the file, loads both,
  evicts \<open>1\<close>, deletes its record from the file and raises \<open>KeyError(1)\<close>.
\<close>

theorem read_counterexample:
  "observe ''f'' (PersistentCache_getitem hash_int 1
      (PersistentCache_init 1 (Some ''f'') (disk_of ''f'' [(''1'', (1::int, 10::int)), (''2'', (2, 20))]))) =
   Some (Inl (KeyError (Inl 1)), [(2, 20)], [(''2'', (2, 20))])"
  by code_simp

text \<open>
  C8, amended. In a settled state (the shelf is open, or persistence is disabled) \<open>get(key)\<close> and
  \<open>contains(key)\<close> give exactly what the wrapped cache gives, its \<open>KeyError\<close> for a missing
  key included, and leave the whole state, the files with it, as it was.
\<close>

theorem read_through_when_settled:
  assumes "settled s"
  shows "PersistentCache_getitem hsh key s = Some (Cache_getitem key (wrapped s), s) \<and>
         PersistentCache_contains hsh key s = Some (Inr (Cache_contains key (wrapped s)), s)"
  using assms
  by (simp add: PersistentCache_getitem_def PersistentCache_contains_def call_Initialize_settled)

theorem read_through_when_settled_witness:
  "settled collided \<and>
   PersistentCache_getitem hash_int 7 collided = Some (Cache_getitem 7 (wrapped collided), collided) \<and>
   PersistentCache_contains hash_int 7 collided = Some (Inr (Cache_contains 7 (wrapped collided)), collided)"
proof -
  have "settled collided" by (simp add: settled_def collided_def)
  with read_through_when_settled [of collided hash_int 7] show ?thesis by simp
qed

end
